theory Spec2Isabelle
  imports Complex_Main
begin

section \<open>Conventions\<close>

text \<open>
  The development embeds the mesh preprocessing of \<^verbatim>\<open>utils.py\<close> and the operators and the
  pipeline of \<^verbatim>\<open>model.py\<close>.

  \<^item> A tensor is a nested list: a vector is a \<open>real list\<close>, a matrix of shape (batch, width) a
    list of rows, a signal of shape (batch, vertices, channels) a list of instances, each a list
    of per-vertex rows. Scalars are real numbers and arithmetic is exact; the pooling
    operator is also given on float32 tensors, with every product and sum rounded as the
    machine rounds it.
  \<^item> Every Python exception is a value \<open>Inl e\<close> of the result type \<open>error + 'a\<close>.
  \<^item> Random draws are read from an explicit noise source, weights from an explicit parameter
    source.
\<close>

datatype error = IndexError | KeyError | ValueError | RuntimeError | TypeError | UnboundLocalError
  | AssertionError | NotImplementedError | ZeroDivisionError

type_synonym vec = "real list"
type_synonym mat = "real list list"
type_synonym signal = "real list list list"

text \<open>Sequencing of fallible steps: the first exception ends the computation.\<close>

definition bind :: "error + 'a \<Rightarrow> ('a \<Rightarrow> error + 'b) \<Rightarrow> error + 'b" where
  "bind r f = (case r of Inl e \<Rightarrow> Inl e | Inr v \<Rightarrow> f v)"

fun mapM :: "('a \<Rightarrow> error + 'b) \<Rightarrow> 'a list \<Rightarrow> error + 'b list" where
  "mapM f [] = Inr []"
| "mapM f (x # xs) =
     (case f x of Inl e \<Rightarrow> Inl e
      | Inr y \<Rightarrow> (case mapM f xs of Inl e \<Rightarrow> Inl e | Inr ys \<Rightarrow> Inr (y # ys)))"

section \<open>Gradient reversal (\<^verbatim>\<open>GradientReversalFn\<close>, \<^verbatim>\<open>GradientReversalLayer\<close>)\<close>

record grl_ctx =
  ctx_alpha :: real

text \<open>\<^verbatim>\<open>forward(ctx, x, alpha)\<close>: stores alpha in the context, returns \<^verbatim>\<open>x.view_as(x)\<close>.\<close>

definition GradientReversalFn_forward :: "grl_ctx \<Rightarrow> mat \<Rightarrow> real \<Rightarrow> grl_ctx \<times> mat" where
  "GradientReversalFn_forward ctx x alpha = (ctx\<lparr>ctx_alpha := alpha\<rparr>, x)"

text \<open>\<^verbatim>\<open>backward(ctx, grad_output)\<close>: \<^verbatim>\<open>grad_output.neg() * ctx.alpha\<close>, and no gradient for alpha.\<close>

definition GradientReversalFn_backward :: "grl_ctx \<Rightarrow> mat \<Rightarrow> mat \<times> real option" where
  "GradientReversalFn_backward ctx grad_output =
     (map (map (\<lambda>g. (- g) * ctx_alpha ctx)) grad_output, None)"

record GradientReversalLayer =
  grl_alpha :: real

definition GradientReversalLayer_forward :: "GradientReversalLayer \<Rightarrow> mat \<Rightarrow> grl_ctx \<times> mat" where
  "GradientReversalLayer_forward l x = GradientReversalFn_forward \<lparr>ctx_alpha = 0\<rparr> x (grl_alpha l)"

section \<open>Hierarchical pooling (\<^verbatim>\<open>Pool\<close>)\<close>

text \<open>
  A sparse COO operator: its stored entries as (row, column, value) triples, that is the two
  rows of \<^verbatim>\<open>_indices()\<close> zipped with \<^verbatim>\<open>_values()\<close>, and its declared size.
\<close>

record sparse_op =
  entries :: "(nat \<times> nat \<times> real) list"
  size0 :: nat
  size1 :: nat

definition width :: "'a list list \<Rightarrow> nat" where
  "width m = (case m of [] \<Rightarrow> 0 | r # _ \<Rightarrow> length r)"

definition vadd :: "vec \<Rightarrow> vec \<Rightarrow> vec" where
  "vadd u v = map2 (+) u v"

text \<open>
  \<^verbatim>\<open>torch.index_select(x, 1, col)\<close> on one instance: the rows at the given vertex indices;
  the library raises RuntimeError for an index beyond the instance.
\<close>

definition index_select :: "'a list \<Rightarrow> nat list \<Rightarrow> error + 'a list" where
  "index_select inst idx =
     (if \<exists>i \<in> set idx. length inst \<le> i then Inl RuntimeError
      else Inr (map (\<lambda>i. inst ! i) idx))"

text \<open>
  \<^verbatim>\<open>scatter_add(src, row, 1, dim_size=n)\<close> on one instance: start from n zero rows and add
  each source row into the output row its index names.
\<close>

fun scatter_rows :: "mat \<Rightarrow> (nat \<times> vec) list \<Rightarrow> mat" where
  "scatter_rows out [] = out"
| "scatter_rows out ((r, s) # ps) = scatter_rows (out[r := vadd (out ! r) s]) ps"

definition scatter_add :: "mat \<Rightarrow> nat list \<Rightarrow> nat \<Rightarrow> nat \<Rightarrow> error + mat" where
  "scatter_add src row dim_size c =
     (if \<exists>r \<in> set row. dim_size \<le> r then Inl RuntimeError
      else Inr (scatter_rows (replicate dim_size (replicate c 0)) (zip row src)))"

definition Pool_instance :: "sparse_op \<Rightarrow> mat \<Rightarrow> error + mat" where
  "Pool_instance transf inst =
     (let row = map fst (entries transf);
          col = map (fst \<circ> snd) (entries transf);
          val = map (snd \<circ> snd) (entries transf)
      in bind (index_select inst col) (\<lambda>sel.
           scatter_add (map2 (\<lambda>r w. map (\<lambda>v. v * w) r) sel val) row (size0 transf) (width inst)))"

definition Pool :: "signal \<Rightarrow> sparse_op \<Rightarrow> error + signal" where
  "Pool x transf = mapM (Pool_instance transf) x"

text \<open>The linear combination \<open>a * x + b * y\<close> of two signals, entry by entry.\<close>

definition axpby_vec :: "real \<Rightarrow> vec \<Rightarrow> real \<Rightarrow> vec \<Rightarrow> vec" where
  "axpby_vec a u b v = map2 (\<lambda>p q. a * p + b * q) u v"

definition axpby_mat :: "real \<Rightarrow> mat \<Rightarrow> real \<Rightarrow> mat \<Rightarrow> mat" where
  "axpby_mat a x b y = map2 (\<lambda>u v. axpby_vec a u b v) x y"

definition axpby :: "real \<Rightarrow> signal \<Rightarrow> real \<Rightarrow> signal \<Rightarrow> signal" where
  "axpby a x b y = map2 (\<lambda>u v. axpby_mat a u b v) x y"

definition shape2 :: "nat \<Rightarrow> nat \<Rightarrow> 'a list list \<Rightarrow> bool" where
  "shape2 n c m \<longleftrightarrow> length m = n \<and> (\<forall>r \<in> set m. length r = c)"

definition shape3 :: "nat \<Rightarrow> nat \<Rightarrow> nat \<Rightarrow> 'a list list list \<Rightarrow> bool" where
  "shape3 b n c x \<longleftrightarrow> length x = b \<and> (\<forall>m \<in> set x. shape2 n c m)"

text \<open>Combining two fallible results: the first exception wins.\<close>

definition lift2 :: "('a \<Rightarrow> 'b \<Rightarrow> 'c) \<Rightarrow> error + 'a \<Rightarrow> error + 'b \<Rightarrow> error + 'c" where
  "lift2 f rx ry =
     (case rx of Inl e \<Rightarrow> Inl e
      | Inr x \<Rightarrow> (case ry of Inl e \<Rightarrow> Inl e | Inr y \<Rightarrow> Inr (f x y)))"

text \<open>A small operator with a repeated output row, used as a concrete instance.\<close>

definition pool_example_op :: sparse_op where
  "pool_example_op = \<lparr>entries = [(0, 0, 2), (0, 1, 1), (1, 1, 3)], size0 = 2, size1 = 2\<rparr>"

section \<open>Pooling on float32 tensors\<close>

text \<open>
  Tensors hold float32 numbers by default. An entry of a float32 tensor is \<open>Some v\<close> for the
  finite number \<open>v\<close> it holds (the two signed zeros are the one real 0) or \<open>None\<close> for an
  infinity or a NaN; a sum or product with an operand that is not finite is not finite.

  \<open>round_even r\<close> is the integer nearest to \<open>r\<close>, the even one of the two at a tie.
\<close>

type_synonym f32 = "real option"

definition round_even :: "real \<Rightarrow> int" where
  "round_even r =
     (let n = \<lfloor>r\<rfloor>; d = r - of_int n
      in if d < 1 / 2 then n else if 1 / 2 < d then n + 1 else if even n then n else n + 1)"

text \<open>
  The exponent of the binade of \<open>v\<close>: the largest \<open>e\<close> from -126 to 127 with
  \<open>2 ^ e \<le> |v|\<close>, and -126 for the magnitudes below (the subnormal range).
\<close>

fun exponent_below :: "nat \<Rightarrow> real \<Rightarrow> int" where
  "exponent_below 0 v = - 126"
| "exponent_below (Suc k) v =
     (if 2 powi (int (Suc k) - 126) \<le> \<bar>v\<bar> then int (Suc k) - 126 else exponent_below k v)"

definition exponent32 :: "real \<Rightarrow> int" where
  "exponent32 v = exponent_below 253 v"

text \<open>
  Rounding to float32 (nearest, ties to even): the significand has 24 bits, so the spacing of
  the numbers in the binade of exponent \<open>e\<close> is \<open>2 ^ (e - 23)\<close>; a result of magnitude
  \<open>2 ^ 128\<close> or more overflows to an infinity.
\<close>

definition fl32 :: "real \<Rightarrow> f32" where
  "fl32 v =
     (let ulp = 2 powi (exponent32 v - 23);
          r = of_int (round_even (v / ulp)) * ulp
      in if 2 powi 128 \<le> \<bar>r\<bar> then None else Some r)"

definition fmul :: "f32 \<Rightarrow> f32 \<Rightarrow> f32" where
  "fmul a b = (case (a, b) of (Some u, Some v) \<Rightarrow> fl32 (u * v) | _ \<Rightarrow> None)"

definition fadd :: "f32 \<Rightarrow> f32 \<Rightarrow> f32" where
  "fadd a b = (case (a, b) of (Some u, Some v) \<Rightarrow> fl32 (u + v) | _ \<Rightarrow> None)"

type_synonym fvec = "f32 list"
type_synonym fmat = "f32 list list"
type_synonym fsignal = "f32 list list list"

text \<open>
  \<^verbatim>\<open>Pool\<close> on a float32 signal, step by step as on exact numbers: every gathered row is
  multiplied by the stored value of its entry, and \<^verbatim>\<open>scatter_add\<close> adds the products, in
  stored order, into rows of zeros; every product and every sum is rounded.
\<close>

definition vadd_f32 :: "fvec \<Rightarrow> fvec \<Rightarrow> fvec" where
  "vadd_f32 u v = map2 fadd u v"

fun scatter_rows_f32 :: "fmat \<Rightarrow> (nat \<times> fvec) list \<Rightarrow> fmat" where
  "scatter_rows_f32 out [] = out"
| "scatter_rows_f32 out ((r, s) # ps) = scatter_rows_f32 (out[r := vadd_f32 (out ! r) s]) ps"

definition scatter_add_f32 :: "fmat \<Rightarrow> nat list \<Rightarrow> nat \<Rightarrow> nat \<Rightarrow> error + fmat" where
  "scatter_add_f32 src row dim_size c =
     (if \<exists>r \<in> set row. dim_size \<le> r then Inl RuntimeError
      else Inr (scatter_rows_f32 (replicate dim_size (replicate c (Some 0))) (zip row src)))"

definition Pool_instance_f32 :: "sparse_op \<Rightarrow> fmat \<Rightarrow> error + fmat" where
  "Pool_instance_f32 transf inst =
     (let row = map fst (entries transf);
          col = map (fst \<circ> snd) (entries transf);
          val = map (snd \<circ> snd) (entries transf)
      in bind (index_select inst col) (\<lambda>sel.
           scatter_add_f32 (map2 (\<lambda>r w. map (\<lambda>v. fmul v (Some w)) r) sel val) row (size0 transf)
             (width inst)))"

definition Pool_f32 :: "fsignal \<Rightarrow> sparse_op \<Rightarrow> error + fsignal" where
  "Pool_f32 x transf = mapM (Pool_instance_f32 transf) x"

text \<open>The combination \<open>a * x + b * y\<close> of two float32 signals: two products and a sum per entry.\<close>

definition axpby_vec_f32 :: "real \<Rightarrow> fvec \<Rightarrow> real \<Rightarrow> fvec \<Rightarrow> fvec" where
  "axpby_vec_f32 a u b v = map2 (\<lambda>p q. fadd (fmul (Some a) p) (fmul (Some b) q)) u v"

definition axpby_mat_f32 :: "real \<Rightarrow> fmat \<Rightarrow> real \<Rightarrow> fmat \<Rightarrow> fmat" where
  "axpby_mat_f32 a x b y = map2 (\<lambda>u v. axpby_vec_f32 a u b v) x y"

definition axpby_f32 :: "real \<Rightarrow> fsignal \<Rightarrow> real \<Rightarrow> fsignal \<Rightarrow> fsignal" where
  "axpby_f32 a x b y = map2 (\<lambda>u v. axpby_mat_f32 a u b v) x y"

text \<open>
  A float32 signal read from exact numbers, entry by entry, and a fallible result read the
  same way. A computation on float32 tensors is exact when it returns the exact result read
  this way, that is, when none of its products and sums is changed by rounding.
\<close>

definition of_exact :: "signal \<Rightarrow> fsignal" where
  "of_exact x = map (map (map Some)) x"

definition of_exact_result :: "error + signal \<Rightarrow> error + fsignal" where
  "of_exact_result r = (case r of Inl e \<Rightarrow> Inl e | Inr x \<Rightarrow> Inr (of_exact x))"

text \<open>
  The conditions under which no product and no sum is changed by rounding, stated on the exact
  numbers. A real is a float32 number when rounding leaves it as it is. Pooling a signal is
  unrounded when, for every instance and channel, the product of every stored entry with its
  signal value is a float32 number and so is every running sum, that is the sum of the products
  of the first \<open>k\<close> entries that go to one output row. The combination \<open>a * x + b * y\<close>
  is unrounded when both products and their sum are float32 numbers at every entry.
\<close>

definition is_f32 :: "real \<Rightarrow> bool" where
  "is_f32 v \<longleftrightarrow> fl32 v = Some v"

definition running_sum :: "(nat \<times> nat \<times> real) list \<Rightarrow> mat \<Rightarrow> nat \<Rightarrow> nat \<Rightarrow> real" where
  "running_sum es m r j = (\<Sum>(r', c, w)\<leftarrow>es. if r' = r then m ! c ! j * w else 0)"

definition pool_unrounded :: "sparse_op \<Rightarrow> signal \<Rightarrow> bool" where
  "pool_unrounded t x \<longleftrightarrow>
     (\<forall>m \<in> set x. \<forall>j < width m.
        (\<forall>(r, c, w) \<in> set (entries t). is_f32 (m ! c ! j * w)) \<and>
        (\<forall>r < size0 t. \<forall>k \<le> length (entries t).
           is_f32 (running_sum (take k (entries t)) m r j)))"

definition axpby_unrounded :: "real \<Rightarrow> signal \<Rightarrow> real \<Rightarrow> signal \<Rightarrow> bool" where
  "axpby_unrounded a x b y \<longleftrightarrow>
     (\<forall>(u, v) \<in> set (zip x y). \<forall>(p, q) \<in> set (zip u v). \<forall>(s, t) \<in> set (zip p q).
        is_f32 (a * s) \<and> is_f32 (b * t) \<and> is_f32 (a * s + b * t))"

text \<open>An operator that adds two vertices into one, used as a concrete instance.\<close>

definition pool_pair_op :: sparse_op where
  "pool_pair_op = \<lparr>entries = [(0, 0, 1), (0, 1, 1)], size0 = 1, size1 = 2\<rparr>"

section \<open>Vertex pruning (\<^verbatim>\<open>remove_mesh_vertices\<close>)\<close>

text \<open>
  Vertices are an array of opaque rows, faces an array of rows of vertex ids (natural numbers,
  as a mesh loader gives them), the removal list a list of Python integers.

  \<^verbatim>\<open>mask[idxs] = 0\<close> with an integer list: an index \<open>i\<close> with \<open>0 \<le> i < n\<close> names
  position \<open>i\<close>, one with \<open>-n \<le> i < 0\<close> names position \<open>n + i\<close>, anything else raises
  IndexError.
\<close>

definition norm_index :: "nat \<Rightarrow> int \<Rightarrow> error + nat" where
  "norm_index n i =
     (if 0 \<le> i \<and> i < int n then Inr (nat i)
      else if - int n \<le> i \<and> i < 0 then Inr (nat (int n + i))
      else Inl IndexError)"

definition mask_clear :: "bool list \<Rightarrow> int list \<Rightarrow> error + bool list" where
  "mask_clear msk idxs =
     bind (mapM (norm_index (length msk)) idxs) (\<lambda>js. Inr (fold (\<lambda>j m. m[j := False]) js msk))"

text \<open>
  \<^verbatim>\<open>np.argwhere(f_original == v_idx)[:, 0]\<close>: the row number of every matching entry, in
  row-major order (a row is listed once for each column that matches).
\<close>

definition argwhere_rows :: "nat list list \<Rightarrow> int \<Rightarrow> nat list" where
  "argwhere_rows f v_idx =
     concat (map (\<lambda>(i, face). map (\<lambda>_. i) (filter (\<lambda>e. int e = v_idx) face)) (enumerate 0 f))"

text \<open>\<^verbatim>\<open>list(dict.fromkeys(xs))\<close>: the first occurrence of every element, in order.\<close>

definition fromkeys :: "'a list \<Rightarrow> 'a list" where
  "fromkeys xs = rev (remdups (rev xs))"

text \<open>\<^verbatim>\<open>a[mask]\<close> with a boolean mask of the length of \<open>a\<close>.\<close>

definition select_mask :: "'a list \<Rightarrow> bool list \<Rightarrow> 'a list" where
  "select_mask xs msk = map fst (filter snd (zip xs msk))"

text \<open>\<^verbatim>\<open>a.max()\<close>: ValueError on an array without elements.\<close>

definition array_max :: "nat list list \<Rightarrow> error + nat" where
  "array_max a = (case concat a of [] \<Rightarrow> Inl ValueError | e # es \<Rightarrow> Inr (fold max es e))"

text \<open>\<^verbatim>\<open>arr[val_old] = val_new\<close>: every target index must be inside \<open>arr\<close>.\<close>

definition assign_at :: "'a list \<Rightarrow> nat list \<Rightarrow> 'a list \<Rightarrow> error + 'a list" where
  "assign_at arr idx vals =
     (if \<exists>i \<in> set idx. length arr \<le> i then Inl IndexError
      else Inr (fold (\<lambda>(i, v) a. a[i := v]) (zip idx vals) arr))"

text \<open>\<^verbatim>\<open>arr[face]\<close> with a row of non-negative indices: IndexError beyond the array.\<close>

definition take_indices :: "'a list \<Rightarrow> nat list \<Rightarrow> error + 'a list" where
  "take_indices arr idx =
     (if \<exists>i \<in> set idx. length arr \<le> i then Inl IndexError
      else Inr (map (\<lambda>i. arr ! i) idx))"

text \<open>
  The function. \<open>junk\<close> is what \<^verbatim>\<open>np.empty\<close> leaves in the fresh array: position \<open>k\<close>
  of it holds \<open>junk k\<close> until it is assigned.
\<close>

definition remove_mesh_vertices ::
  "(nat \<Rightarrow> int) \<Rightarrow> 'v list \<Rightarrow> nat list list \<Rightarrow> int list
     \<Rightarrow> error + ('v list \<times> int list list \<times> bool list)" where
  "remove_mesh_vertices junk v_original f_original v_idxs_to_remove =
     bind (mask_clear (replicate (length v_original) True) v_idxs_to_remove) (\<lambda>keep_v_mask.
     let remove_f_idxs = sort (fromkeys (concat (map (argwhere_rows f_original) v_idxs_to_remove)))
     in bind (mask_clear (replicate (length f_original) True) (map int remove_f_idxs)) (\<lambda>keep_f_mask.
     let updated_faces = select_mask f_original keep_f_mask;
         new_vertices = select_mask v_original keep_v_mask;
         val_old = filter (\<lambda>i. keep_v_mask ! i) [0..<length keep_v_mask];
         val_new = map int [0..<length (filter id keep_v_mask)]
     in bind (array_max updated_faces) (\<lambda>m.
        bind (assign_at (map junk [0..<m + 1]) val_old val_new) (\<lambda>arr.
        bind (mapM (take_indices arr) updated_faces) (\<lambda>new_faces.
        Inr (new_vertices, new_faces, keep_v_mask))))))"

section \<open>Dense and spiral layers (\<^verbatim>\<open>nn.Linear\<close>, \<^verbatim>\<open>SpiralConv\<close>, the blocks)\<close>

text \<open>
  A dense layer holds a weight matrix of shape (out, in) and a bias of length out. Its
  parameters are produced elsewhere (initialisation, then training), so a layer is built from
  a parameter source: \<open>w i j\<close> is the weight at row \<open>i\<close> and column \<open>j\<close>, \<open>b i\<close> the
  bias at \<open>i\<close>.
\<close>

record Linear =
  in_features :: nat
  out_features :: nat
  weight :: mat
  bias :: vec

type_synonym params = "(nat \<Rightarrow> nat \<Rightarrow> real) \<times> (nat \<Rightarrow> real)"

definition Linear_init :: "params \<Rightarrow> nat \<Rightarrow> nat \<Rightarrow> Linear" where
  "Linear_init p n_in n_out =
     \<lparr>in_features = n_in, out_features = n_out,
      weight = map (\<lambda>i. map (\<lambda>j. fst p i j) [0..<n_in]) [0..<n_out],
      bias = map (snd p) [0..<n_out]\<rparr>"

definition dot :: "vec \<Rightarrow> vec \<Rightarrow> real" where
  "dot u v = sum_list (map2 (*) u v)"

text \<open>The layer on one row: the row must have \<open>in_features\<close> entries.\<close>

definition Linear_forward :: "Linear \<Rightarrow> vec \<Rightarrow> error + vec" where
  "Linear_forward l x =
     (if length x \<noteq> in_features l then Inl RuntimeError
      else Inr (map2 (\<lambda>w b. dot w x + b) (weight l) (bias l)))"

text \<open>
  \<^verbatim>\<open>t.view(n, -1)\<close> of flat data: \<open>n\<close> rows of equal length; an error when \<open>n\<close> is zero
  or does not divide the number of elements.
\<close>

definition view_rows :: "nat \<Rightarrow> 'a list \<Rightarrow> error + 'a list list" where
  "view_rows n flat =
     (if n = 0 \<or> length flat mod n \<noteq> 0 then Inl RuntimeError
      else Inr (map (\<lambda>i. take (length flat div n) (drop (i * (length flat div n)) flat)) [0..<n]))"

text \<open>\<^verbatim>\<open>t.view(-1, k)\<close> of flat data: rows of length \<open>k\<close>.\<close>

definition view_cols :: "nat \<Rightarrow> 'a list \<Rightarrow> error + 'a list list" where
  "view_cols k flat =
     (if k = 0 \<or> length flat mod k \<noteq> 0 then Inl RuntimeError
      else Inr (map (\<lambda>i. take k (drop (i * k) flat)) [0..<length flat div k]))"

record SpiralConv =
  conv_indices :: "nat list list"
  conv_in_channels :: nat
  conv_out_channels :: nat
  seq_length :: nat
  layer :: Linear

text \<open>
  The attributes the constructor sets: the sequence length is the width of the index table,
  the dense layer takes \<open>in_channels * seq_length\<close> inputs.
\<close>

definition SpiralConv_attrs :: "params \<Rightarrow> nat \<Rightarrow> nat \<Rightarrow> nat list list \<Rightarrow> SpiralConv" where
  "SpiralConv_attrs p n_in n_out indices =
     \<lparr>conv_indices = indices, conv_in_channels = n_in, conv_out_channels = n_out,
      seq_length = width indices,
      layer = Linear_init p (n_in * width indices) n_out\<rparr>"

text \<open>
  \<^verbatim>\<open>xavier_uniform_\<close> on a weight of shape (fan_out, fan_in) divides by
  \<open>fan_in + fan_out\<close>: a ZeroDivisionError on a layer with neither inputs nor outputs.
\<close>

definition xavier_uniform :: "nat \<Rightarrow> nat \<Rightarrow> error + unit" where
  "xavier_uniform fan_in fan_out = (if fan_in + fan_out = 0 then Inl ZeroDivisionError else Inr ())"

text \<open>\<^verbatim>\<open>SpiralConv.__init__\<close>: the attributes, then \<^verbatim>\<open>reset_parameters\<close> on the dense layer.\<close>

definition SpiralConv_init :: "params \<Rightarrow> nat \<Rightarrow> nat \<Rightarrow> nat list list \<Rightarrow> error + SpiralConv" where
  "SpiralConv_init p n_in n_out indices =
     bind (xavier_uniform (n_in * width indices) n_out) (\<lambda>_.
     Inr (SpiralConv_attrs p n_in n_out indices))"

text \<open>
  The forward pass on a batched signal (the \<^verbatim>\<open>x.dim() == 3\<close> branch, the one the pipeline
  uses): gather the rows the flattened index table names, regroup them as one row per node,
  apply the dense layer to every row. On an empty batch \<^verbatim>\<open>x.view(bs, n_nodes, -1)\<close>
  cannot infer the last size and raises RuntimeError.
\<close>

definition SpiralConv_instance :: "SpiralConv \<Rightarrow> mat \<Rightarrow> error + mat" where
  "SpiralConv_instance c inst =
     bind (index_select inst (concat (conv_indices c))) (\<lambda>sel.
     bind (view_rows (length (conv_indices c)) (concat sel)) (\<lambda>rows.
     mapM (Linear_forward (layer c)) rows))"

definition SpiralConv_forward :: "SpiralConv \<Rightarrow> signal \<Rightarrow> error + signal" where
  "SpiralConv_forward c x =
     (if x = [] then Inl RuntimeError else mapM (SpiralConv_instance c) x)"

definition elu :: "real \<Rightarrow> real" where
  "elu x = (if 0 < x then x else exp x - 1)"

definition sigmoid :: "real \<Rightarrow> real" where
  "sigmoid x = 1 / (1 + exp (- x))"

text \<open>Encoder block: convolution, ELU, then pooling. Decoder block: pooling, convolution, ELU.\<close>

definition SpiralEnblock_forward :: "SpiralConv \<Rightarrow> signal \<Rightarrow> sparse_op \<Rightarrow> error + signal" where
  "SpiralEnblock_forward c x down_transform =
     bind (SpiralConv_forward c x) (\<lambda>out. Pool (map (map (map elu)) out) down_transform)"

definition SpiralDeblock_forward :: "SpiralConv \<Rightarrow> signal \<Rightarrow> sparse_op \<Rightarrow> error + signal" where
  "SpiralDeblock_forward c x up_transform =
     bind (Pool x up_transform) (\<lambda>out.
     bind (SpiralConv_forward c out) (\<lambda>y. Inr (map (map (map elu)) y)))"

section \<open>The pipeline (\<^verbatim>\<open>Model\<close>)\<close>

datatype module = Enblock SpiralConv | Deblock SpiralConv | Conv SpiralConv | Lin Linear

text \<open>
  The two perceptrons are sequences of library layers (dense, ReLU, batch normalisation,
  dropout). The model takes their forward maps as parameters; the first argument numbers the
  call within one forward pass, since dropout draws afresh at every call. The regressor's
  first stage, the gradient-reversal layer, is part of the model.
\<close>

record Model =
  in_channels :: nat
  out_channels :: "nat list"
  latent_size :: nat
  age_disentanglement :: bool
  swap_features :: bool
  batch_diagonal_idx :: "int list"
  old_experiment :: bool
  spiral_indices :: "nat list list list"
  down_transform :: "sparse_op list"
  up_transform :: "sparse_op list"
  mlp_dropout :: real
  mlp_layer_2 :: nat
  mlp_layer_3 :: nat
  model_version :: real
  extra_layers :: bool
  detach_features :: bool
  num_vert :: nat
  is_vae :: bool
  en_layers :: "module list"
  de_layers :: "module list"
  mlp_feature_layers :: "nat \<Rightarrow> mat \<Rightarrow> error + mat"
  mlp_loss_layers :: "nat \<Rightarrow> mat \<Rightarrow> error + mat"

text \<open>Python list indexing: \<open>xs[i]\<close> for \<open>i \<ge> 0\<close> and \<open>xs[-k]\<close> for \<open>k \<ge> 1\<close>.\<close>

definition py_nth :: "'a list \<Rightarrow> nat \<Rightarrow> error + 'a" where
  "py_nth xs i = (if i < length xs then Inr (xs ! i) else Inl IndexError)"

definition py_neg :: "'a list \<Rightarrow> nat \<Rightarrow> error + 'a" where
  "py_neg xs k = (if 1 \<le> k \<and> k \<le> length xs then Inr (xs ! (length xs - k)) else Inl IndexError)"

text \<open>The constructor arguments.\<close>

record config =
  cfg_in_channels :: nat
  cfg_out_channels :: "nat list"
  cfg_latent_size :: nat
  cfg_age_disentanglement :: bool
  cfg_swap_features :: bool
  cfg_batch_diagonal_idx :: "int list"
  cfg_old_experiment :: bool
  cfg_spiral_indices :: "nat list list list"
  cfg_down_transform :: "sparse_op list"
  cfg_up_transform :: "sparse_op list"
  cfg_mlp_dropout :: real
  cfg_mlp_layer_2 :: nat
  cfg_mlp_layer_3 :: nat
  cfg_model_version :: real
  cfg_extra_layers :: bool
  cfg_detach_features :: bool
  cfg_is_vae :: bool
  cfg_mlp_feature_layers :: "nat \<Rightarrow> mat \<Rightarrow> error + mat"
  cfg_mlp_loss_layers :: "nat \<Rightarrow> mat \<Rightarrow> error + mat"

text \<open>
  The encoder blocks of \<^verbatim>\<open>__init__\<close>: block \<open>idx\<close> maps \<open>in_channels\<close> (for
  \<open>idx = 0\<close>) or \<open>out_channels[idx - 1]\<close> to \<open>out_channels[idx]\<close> on
  \<open>spiral_indices[idx]\<close>. Layer \<open>k\<close> of the encoder reads its parameters from
  \<open>pe k\<close>, layer \<open>k\<close> of the decoder from \<open>pd k\<close>.
\<close>

definition encoder_block :: "(nat \<Rightarrow> params) \<Rightarrow> config \<Rightarrow> nat \<Rightarrow> error + module" where
  "encoder_block pe cfg idx =
     bind (py_nth (cfg_out_channels cfg) idx) (\<lambda>oc.
     bind (py_nth (cfg_spiral_indices cfg) idx) (\<lambda>si.
     if idx = 0
     then bind (SpiralConv_init (pe idx) (cfg_in_channels cfg) oc si) (\<lambda>c. Inr (Enblock c))
     else bind (SpiralConv_init (pe idx) (cfg_out_channels cfg ! (idx - 1)) oc si) (\<lambda>c.
          Inr (Enblock c))))"

text \<open>
  The decoder blocks: block \<open>idx\<close> maps \<open>out_channels[-idx]\<close> (for \<open>idx = 0\<close>:
  \<open>out_channels[-1]\<close>) to \<open>out_channels[-idx - 1]\<close> on \<open>spiral_indices[-idx - 1]\<close>.
\<close>

definition decoder_block :: "(nat \<Rightarrow> params) \<Rightarrow> config \<Rightarrow> nat \<Rightarrow> error + module" where
  "decoder_block pd cfg idx =
     bind (py_neg (cfg_out_channels cfg) (idx + 1)) (\<lambda>oc.
     bind (py_neg (cfg_spiral_indices cfg) (idx + 1)) (\<lambda>si.
     if idx = 0 then bind (SpiralConv_init (pd (idx + 1)) oc oc si) (\<lambda>c. Inr (Deblock c))
     else bind (py_neg (cfg_out_channels cfg) idx) (\<lambda>oc_in.
          bind (SpiralConv_init (pd (idx + 1)) oc_in oc si) (\<lambda>c. Inr (Deblock c)))))"

text \<open>\<^verbatim>\<open>nn.Dropout(p)\<close>: a ValueError unless \<open>0 \<le> p \<le> 1\<close>.\<close>

definition Dropout_init :: "real \<Rightarrow> error + unit" where
  "Dropout_init p = (if p < 0 \<or> 1 < p then Inl ValueError else Inr ())"

text \<open>
  \<^verbatim>\<open>Model.__init__\<close>, in the order of the source: the vertex count of the coarsest level;
  the encoder blocks; the dense encoder layers (a dense layer with \<open>latent_size - 1 < 0\<close>
  outputs cannot be allocated, here or in the feature perceptron); the two perceptrons with
  their dropout layers; the decoder; then \<^verbatim>\<open>reset_parameters_mlp\<close> on the dense layers
  of the feature perceptron (three of shape \<open>(latent_size - 1, latent_size - 1)\<close>) and of
  the regressor. The closing \<^verbatim>\<open>reset_parameters\<close> reinitialises weights whose layers
  passed the same division before and dense layers with at least one input or output.
\<close>

definition Model_init :: "(nat \<Rightarrow> params) \<Rightarrow> (nat \<Rightarrow> params) \<Rightarrow> config \<Rightarrow> error + Model" where
  "Model_init pe pd cfg =
     (let n = length (cfg_out_channels cfg); L = cfg_latent_size cfg in
      bind (py_neg (cfg_down_transform cfg) 1) (\<lambda>last_down.
      let nv = size0 last_down in
      bind (mapM (encoder_block pe cfg) [0..<n]) (\<lambda>en_blocks.
      bind (py_neg (cfg_out_channels cfg) 1) (\<lambda>oc_last.
      if L = 0 then Inl RuntimeError
      else
      let mean_or_logvar =
            (if cfg_age_disentanglement cfg \<and> cfg_old_experiment cfg = False
                \<and> cfg_model_version cfg \<noteq> 23 / 10
             then Lin (Linear_init (pe n) (nv * oc_last) (L - 1))
             else Lin (Linear_init (pe n) (nv * oc_last) L));
          en = en_blocks @ [mean_or_logvar]
             @ (if cfg_is_vae cfg then [Lin (Linear_init (pe (n + 1)) (nv * oc_last) L)] else [])
      in
      bind (Dropout_init (cfg_mlp_dropout cfg)) (\<lambda>_.
      bind (mapM (decoder_block pd cfg) [0..<n]) (\<lambda>de_blocks.
      bind (py_nth (cfg_out_channels cfg) 0) (\<lambda>oc0.
      bind (py_nth (cfg_spiral_indices cfg) 0) (\<lambda>si0.
      bind (SpiralConv_init (pd (n + 1)) oc0 (cfg_in_channels cfg) si0) (\<lambda>last_conv.
      bind (xavier_uniform (L - 1) (L - 1)) (\<lambda>_.
      bind (xavier_uniform (L - 1) (cfg_mlp_layer_2 cfg)) (\<lambda>_.
      bind (xavier_uniform (cfg_mlp_layer_2 cfg) (cfg_mlp_layer_3 cfg)) (\<lambda>_.
      bind (xavier_uniform (cfg_mlp_layer_3 cfg) 1) (\<lambda>_.
      Inr \<lparr>in_channels = cfg_in_channels cfg, out_channels = cfg_out_channels cfg,
           latent_size = L, age_disentanglement = cfg_age_disentanglement cfg,
           swap_features = cfg_swap_features cfg,
           batch_diagonal_idx = cfg_batch_diagonal_idx cfg,
           old_experiment = cfg_old_experiment cfg,
           spiral_indices = cfg_spiral_indices cfg,
           down_transform = cfg_down_transform cfg, up_transform = cfg_up_transform cfg,
           mlp_dropout = cfg_mlp_dropout cfg, mlp_layer_2 = cfg_mlp_layer_2 cfg,
           mlp_layer_3 = cfg_mlp_layer_3 cfg,
           model_version = cfg_model_version cfg, extra_layers = cfg_extra_layers cfg,
           detach_features = cfg_detach_features cfg, num_vert = nv,
           is_vae = cfg_is_vae cfg,
           en_layers = en,
           de_layers = [Lin (Linear_init (pd 0) L (nv * oc_last))] @ de_blocks @ [Conv last_conv],
           mlp_feature_layers = cfg_mlp_feature_layers cfg,
           mlp_loss_layers = cfg_mlp_loss_layers cfg\<rparr>)))))))))))))"

text \<open>
  \<^verbatim>\<open>encode\<close>. The loop applies every layer but the last one (two in variational mode) as
  an encoder block with the down-transform of its position; then the signal is flattened to
  rows of the last layer's input width; the last layer gives the mean, the one before it
  (variational mode) the log-variance.
\<close>

fun encode_blocks :: "sparse_op list \<Rightarrow> nat \<Rightarrow> module list \<Rightarrow> signal \<Rightarrow> error + signal" where
  "encode_blocks downs i [] x = Inr x"
| "encode_blocks downs i (l # ls) x =
     (case l of
        Enblock c \<Rightarrow>
          bind (py_nth downs i) (\<lambda>d.
          bind (SpiralEnblock_forward c x d) (\<lambda>y. encode_blocks downs (i + 1) ls y))
      | _ \<Rightarrow> Inl TypeError)"

definition apply_linear :: "module \<Rightarrow> mat \<Rightarrow> error + mat" where
  "apply_linear l x = (case l of Lin lin \<Rightarrow> mapM (Linear_forward lin) x | _ \<Rightarrow> Inl TypeError)"

definition linear_in_width :: "module \<Rightarrow> error + nat" where
  "linear_in_width l = (case l of Lin lin \<Rightarrow> Inr (in_features lin) | _ \<Rightarrow> Inl TypeError)"

definition encode :: "Model \<Rightarrow> signal \<Rightarrow> error + (mat \<times> mat option)" where
  "encode m x =
     (let n_linear_layers = (if is_vae m then 2 else 1 :: nat) in
      bind (encode_blocks (down_transform m) 0
              (take (length (en_layers m) - n_linear_layers) (en_layers m)) x) (\<lambda>x.
      bind (py_neg (en_layers m) 1) (\<lambda>last_layer.
      bind (linear_in_width last_layer) (\<lambda>k.
      bind (view_cols k (concat (concat x))) (\<lambda>x.
      bind (apply_linear last_layer x) (\<lambda>mu.
      if is_vae m then
        bind (py_neg (en_layers m) 2) (\<lambda>l2.
        bind (apply_linear l2 x) (\<lambda>logvar. Inr (mu, Some logvar)))
      else Inr (map (map sigmoid) mu, None)))))))"

text \<open>
  \<^verbatim>\<open>decode\<close>. Layer 0 is dense and its output is viewed as (batch, num_vert,
  out_channels[-1]); every layer but the last is a decoder block with the up-transform at
  \<open>num_features - i\<close>; the last layer is a plain spiral convolution.
\<close>

fun decode_layers ::
  "sparse_op list \<Rightarrow> nat \<Rightarrow> nat \<Rightarrow> module list \<Rightarrow> signal \<Rightarrow> error + signal" where
  "decode_layers ups num_layers i [] x = Inr x"
| "decode_layers ups num_layers i (l # ls) x =
     (if i \<noteq> num_layers - 1 then
        (case l of
           Deblock c \<Rightarrow>
             (if num_layers - 2 < i then Inl IndexError
              else bind (py_nth ups (num_layers - 2 - i)) (\<lambda>u.
                   bind (SpiralDeblock_forward c x u) (\<lambda>y.
                   decode_layers ups num_layers (i + 1) ls y)))
         | _ \<Rightarrow> Inl TypeError)
      else
        (case l of
           Conv c \<Rightarrow> bind (SpiralConv_forward c x) (\<lambda>y. decode_layers ups num_layers (i + 1) ls y)
         | _ \<Rightarrow> Inl TypeError))"

definition view3 :: "nat \<Rightarrow> nat \<Rightarrow> mat \<Rightarrow> error + signal" where
  "view3 nv c x =
     bind (view_cols (nv * c) (concat x)) (\<lambda>insts. mapM (view_cols c) insts)"

definition decode :: "Model \<Rightarrow> mat \<Rightarrow> error + signal" where
  "decode m x =
     (case de_layers m of
        [] \<Rightarrow> Inl TypeError
      | l0 # ls \<Rightarrow>
          bind (apply_linear l0 x) (\<lambda>h.
          bind (py_neg (out_channels m) 1) (\<lambda>oc_last.
          bind (view3 (num_vert m) oc_last h) (\<lambda>s.
          decode_layers (up_transform m) (length (de_layers m)) 1 ls s))))"

text \<open>
  \<^verbatim>\<open>_reparameterize\<close>. The sample \<^verbatim>\<open>randn_like(std)\<close> is read from a noise source: entry
  \<open>j\<close> of row \<open>b\<close> is \<open>noise b j\<close>. Addition broadcasts as the library does: along an
  axis the sizes are equal, or one of them is 1.
\<close>

definition randn_like :: "(nat \<Rightarrow> nat \<Rightarrow> real) \<Rightarrow> mat \<Rightarrow> mat" where
  "randn_like noise t = map (\<lambda>(b, row). map (noise b) [0..<length row]) (enumerate 0 t)"

definition broadcast :: "('a \<Rightarrow> 'a \<Rightarrow> error + 'a) \<Rightarrow> 'a list \<Rightarrow> 'a list \<Rightarrow> error + 'a list" where
  "broadcast f x y =
     (if length x = length y then mapM (\<lambda>(u, v). f u v) (zip x y)
      else if length x = 1 then mapM (\<lambda>v. f (hd x) v) y
      else if length y = 1 then mapM (\<lambda>u. f u (hd y)) x
      else Inl RuntimeError)"

definition tensor_add :: "mat \<Rightarrow> mat \<Rightarrow> error + mat" where
  "tensor_add x y = broadcast (broadcast (\<lambda>a b. Inr (a + b))) x y"

text \<open>\<^verbatim>\<open>t[:, :-1]\<close>, \<^verbatim>\<open>t[:, -1]\<close> (an IndexError on rows without entries) and
  \<^verbatim>\<open>torch.cat((a, b), dim=1)\<close> (the batch sizes must agree).\<close>

definition drop_last_col :: "mat \<Rightarrow> mat" where
  "drop_last_col t = map butlast t"

definition last_col :: "mat \<Rightarrow> error + vec" where
  "last_col t = (if \<exists>r \<in> set t. r = [] then Inl IndexError else Inr (map last t))"

definition cat1 :: "mat \<Rightarrow> mat \<Rightarrow> error + mat" where
  "cat1 a b = (if length a \<noteq> length b then Inl RuntimeError else Inr (map2 (@) a b))"

definition reparameterize ::
  "(nat \<Rightarrow> nat \<Rightarrow> real) \<Rightarrow> mat \<Rightarrow> mat \<Rightarrow> bool \<Rightarrow> bool \<Rightarrow> real \<Rightarrow> error + mat" where
  "reparameterize noise mu logvar age_disent old_exp version =
     (let std = map (map (\<lambda>v. exp (0.5 * v))) logvar;
          eps = randn_like noise std;
          eps_std = map2 (map2 (*)) eps std
      in if age_disent \<and> old_exp = False \<and> version \<noteq> 23 / 10 then
           let mu_feat = drop_last_col mu in
           bind (last_col mu) (\<lambda>age.
           let mu_age = map (\<lambda>a. [a]) age in
           bind (tensor_add mu_feat eps_std) (\<lambda>z. cat1 z mu_age))
         else tensor_add mu eps_std)"

text \<open>
  \<^verbatim>\<open>mlp_feature\<close> and \<^verbatim>\<open>mlp_loss\<close>. In swap mode the regressor sees the rows
  \<^verbatim>\<open>features[batch_diagonal_idx]\<close> only.
\<close>

definition mlp_feature :: "Model \<Rightarrow> nat \<Rightarrow> mat \<Rightarrow> error + mat" where
  "mlp_feature m call features = mlp_feature_layers m call features"

definition select_rows :: "mat \<Rightarrow> int list \<Rightarrow> error + mat" where
  "select_rows t idx = mapM (\<lambda>i. bind (norm_index (length t) i) (\<lambda>j. Inr (t ! j))) idx"

definition mlp_loss :: "Model \<Rightarrow> nat \<Rightarrow> mat \<Rightarrow> error + mat" where
  "mlp_loss m call features =
     bind (if swap_features m then select_rows features (batch_diagonal_idx m) else Inr features)
       (\<lambda>features.
        mlp_loss_layers m call (snd (GradientReversalLayer_forward \<lparr>grl_alpha = 1\<rparr> features)))"

text \<open>
  \<^verbatim>\<open>forward\<close>. The result is the tuple (out, z, mu, logvar, mlp_output); the last is the
  regressor's output, or the number 0 when disentanglement is off. When no branch of the
  selector chain applies, the return statement reads names never assigned.
\<close>

datatype mlp_output = Pred mat | Zero

type_synonym forward_result = "signal \<times> mat \<times> mat \<times> mat option \<times> mlp_output"

definition regress :: "Model \<Rightarrow> nat \<Rightarrow> mat \<Rightarrow> error + mlp_output" where
  "regress m call features =
     (if age_disentanglement m then bind (mlp_loss m call features) (\<lambda>p. Inr (Pred p))
      else Inr Zero)"

definition sample :: "Model \<Rightarrow> bool \<Rightarrow> (nat \<Rightarrow> nat \<Rightarrow> real) \<Rightarrow> mat \<Rightarrow> mat option \<Rightarrow> error + mat" where
  "sample m training noise mu logvar =
     (if is_vae m \<and> training then
        (case logvar of
           Some lv \<Rightarrow> reparameterize noise mu lv (age_disentanglement m) (old_experiment m)
                        (model_version m)
         | None \<Rightarrow> Inl TypeError)
      else Inr mu)"

definition forward ::
  "Model \<Rightarrow> bool \<Rightarrow> (nat \<Rightarrow> nat \<Rightarrow> real) \<Rightarrow> signal \<Rightarrow> error + forward_result" where
  "forward m training noise x =
     (if model_version m = 1 \<and> extra_layers m = False \<and> detach_features m = False then
        bind (encode m x) (\<lambda>(mu, logvar).
        bind (sample m training noise mu logvar) (\<lambda>z.
        let z_features = drop_last_col z in
        bind (regress m 0 z_features) (\<lambda>mlp_out.
        bind (decode m z) (\<lambda>out.
        Inr (out, z, mu, logvar, mlp_out)))))
      else if model_version m = 2 \<and> extra_layers m = False \<and> detach_features m = False then
        bind (encode m x) (\<lambda>(mu, logvar).
        let mu_features = drop_last_col mu in
        bind (regress m 0 mu_features) (\<lambda>mlp_out.
        bind (sample m training noise mu logvar) (\<lambda>z.
        bind (decode m z) (\<lambda>out.
        Inr (out, z, mu, logvar, mlp_out)))))
      else if model_version m = 1 \<and> extra_layers m = True \<and> detach_features m = False then
        bind (encode m x) (\<lambda>(mu, logvar).
        bind (sample m training noise mu logvar) (\<lambda>z1.
        let z1_features = drop_last_col z1 in
        bind (last_col z1) (\<lambda>z1_age.
        bind (mlp_feature m 0 z1_features) (\<lambda>z2_features.
        bind (regress m 0 z2_features) (\<lambda>mlp_out.
        bind (cat1 z2_features (map (\<lambda>a. [a]) z1_age)) (\<lambda>z2.
        bind (decode m z2) (\<lambda>out.
        Inr (out, z2, mu, logvar, mlp_out))))))))
      else if (model_version m = 2 \<or> model_version m = 23 / 10) \<and> extra_layers m = True
              \<and> detach_features m = False then
        bind (encode m x) (\<lambda>(mu1, logvar).
        let mu1_features = drop_last_col mu1 in
        bind (last_col mu1) (\<lambda>mu1_age.
        bind (mlp_feature m 0 mu1_features) (\<lambda>mu2_features.
        bind (regress m 0 mu2_features) (\<lambda>mlp_out.
        bind (cat1 mu2_features (map (\<lambda>a. [a]) mu1_age)) (\<lambda>mu2.
        bind (sample m training noise mu2 logvar) (\<lambda>z.
        bind (decode m z) (\<lambda>out.
        Inr (out, z, mu2, logvar, mlp_out))))))))
      else if model_version m = 2 \<and> extra_layers m = True \<and> detach_features m = True then
        bind (encode m x) (\<lambda>(mu1, logvar).
        let mu1_features = drop_last_col mu1;
            mu1_features_detached = drop_last_col mu1 in
        bind (last_col mu1) (\<lambda>mu1_age.
        bind (mlp_feature m 0 mu1_features) (\<lambda>mu2_features.
        bind (mlp_feature m 1 mu1_features_detached) (\<lambda>mu1_features_detached.
        bind (regress m 0 mu1_features_detached) (\<lambda>mlp_out.
        bind (cat1 mu2_features (map (\<lambda>a. [a]) mu1_age)) (\<lambda>mu2.
        bind (sample m training noise mu2 logvar) (\<lambda>z.
        bind (decode m z) (\<lambda>out.
        Inr (out, z, mu2, logvar, mlp_out)))))))))
      else Inl UnboundLocalError)"

text \<open>The selector combinations for which a branch of \<^verbatim>\<open>forward\<close> exists.\<close>

definition selector_listed :: "real \<Rightarrow> bool \<Rightarrow> bool \<Rightarrow> bool" where
  "selector_listed version extra detach \<longleftrightarrow>
     (version, extra, detach) \<in> {(1, False, False), (2, False, False), (1, True, False),
        (2, True, False), (23 / 10, True, False), (2, True, True)}"

text \<open>
  A well-formed encoder hierarchy: one spiral table and one down-transform per encoder block;
  the table of level \<open>i\<close> is rectangular, not empty, and names vertices of its own level;
  the down-transform of level \<open>i\<close> reads vertices of level \<open>i\<close> and writes rows below its
  declared row count, which is the vertex count of level \<open>i + 1\<close>; the coarsest level and
  the last channel count are not zero.
\<close>

definition valid_hierarchy :: "config \<Rightarrow> bool" where
  "valid_hierarchy cfg \<longleftrightarrow>
     (let n = length (cfg_out_channels cfg); si = cfg_spiral_indices cfg;
          downs = cfg_down_transform cfg
      in 0 < n \<and> length si = n \<and> length downs = n \<and> 0 < cfg_latent_size cfg \<and>
         (\<forall>i < n. si ! i \<noteq> [] \<and>
            (\<forall>row \<in> set (si ! i). length row = width (si ! i) \<and> (\<forall>v \<in> set row. v < length (si ! i))) \<and>
            (\<forall>(r, c, w) \<in> set (entries (downs ! i)). r < size0 (downs ! i) \<and> c < length (si ! i)) \<and>
            (i + 1 < n \<longrightarrow> size0 (downs ! i) = length (si ! (i + 1)))) \<and>
         0 < size0 (last downs) \<and> 0 < last (cfg_out_channels cfg))"

text \<open>
  The width of the layer stored second to last in variational mode (the one \<^verbatim>\<open>encode\<close>
  uses for the log-variance; in plain mode it is the last layer, the one used for the mean).
\<close>

definition first_dense_width :: "config \<Rightarrow> nat" where
  "first_dense_width cfg =
     (if cfg_age_disentanglement cfg \<and> cfg_old_experiment cfg = False
         \<and> cfg_model_version cfg \<noteq> 23 / 10
      then cfg_latent_size cfg - 1 else cfg_latent_size cfg)"

text \<open>
  A smallest concrete pipeline: one vertex, one channel, one encoder block, latent size 2,
  all weights 1 and all biases 0; the perceptrons are stand-ins that return their input.
\<close>

definition ones :: params where
  "ones = (\<lambda>_ _. 1, \<lambda>_. 0)"

definition unit_op :: sparse_op where
  "unit_op = \<lparr>entries = [(0, 0, 1)], size0 = 1, size1 = 1\<rparr>"

definition tiny_cfg :: "bool \<Rightarrow> bool \<Rightarrow> config" where
  "tiny_cfg vae disent =
     \<lparr>cfg_in_channels = 1, cfg_out_channels = [1], cfg_latent_size = 2,
      cfg_age_disentanglement = disent, cfg_swap_features = False,
      cfg_batch_diagonal_idx = [], cfg_old_experiment = False,
      cfg_spiral_indices = [[[0]]], cfg_down_transform = [unit_op],
      cfg_up_transform = [unit_op], cfg_mlp_dropout = 1 / 2, cfg_mlp_layer_2 = 1,
      cfg_mlp_layer_3 = 1, cfg_model_version = 1, cfg_extra_layers = False,
      cfg_detach_features = False, cfg_is_vae = vae,
      cfg_mlp_feature_layers = (\<lambda>_ x. Inr x), cfg_mlp_loss_layers = (\<lambda>_ x. Inr x)\<rparr>"

definition tiny_model :: "bool \<Rightarrow> bool \<Rightarrow> Model" where
  "tiny_model vae disent =
     \<lparr>in_channels = 1, out_channels = [1], latent_size = 2,
      age_disentanglement = disent, swap_features = False, batch_diagonal_idx = [],
      old_experiment = False, spiral_indices = [[[0]]], down_transform = [unit_op],
      up_transform = [unit_op], mlp_dropout = 1 / 2, mlp_layer_2 = 1, mlp_layer_3 = 1,
      model_version = 1, extra_layers = False,
      detach_features = False, num_vert = 1, is_vae = vae,
      en_layers = [Enblock (SpiralConv_attrs ones 1 1 [[0]]),
                   Lin (Linear_init ones 1 (if disent then 1 else 2))]
                  @ (if vae then [Lin (Linear_init ones 1 2)] else []),
      de_layers = [Lin (Linear_init ones 2 1), Deblock (SpiralConv_attrs ones 1 1 [[0]]),
                   Conv (SpiralConv_attrs ones 1 1 [[0]])],
      mlp_feature_layers = (\<lambda>_ x. Inr x), mlp_loss_layers = (\<lambda>_ x. Inr x)\<rparr>"

section \<open>Region segmentation (\<^verbatim>\<open>extract_feature_and_contour_from_colour\<close>)\<close>

text \<open>
  A mesh carries vertex positions, faces, one colour per vertex and its unique edges (the
  attribute \<^verbatim>\<open>edges_unique\<close> the mesh library derives from the faces). The argument of the
  function is a library mesh, a point-colored data object (which may lack the attribute
  \<^verbatim>\<open>colors\<close>), or something else. A colour is a value of any type with equality: the
  source keys its dictionary by \<^verbatim>\<open>str(colour)\<close>, which is equal for equal colour rows and
  different for different ones.
\<close>

record 'c mesh =
  vertices :: "(real \<times> real \<times> real) list"
  faces :: "nat list list"
  vertex_colors :: "'c list"
  edges_unique :: "(nat \<times> nat) list"

datatype 'c colored = Data bool "'c mesh" | Trimesh "'c mesh" | Other

record bucket =
  feature :: "nat list"
  contour :: "nat list"

text \<open>
  \<^verbatim>\<open>nx.from_edgelist\<close> and \<^verbatim>\<open>list(graph[i].keys())\<close>: the neighbours of \<open>i\<close> in the
  order the edges first mention them; a KeyError when no edge mentions \<open>i\<close>.
\<close>

definition neighbours :: "(nat \<times> nat) list \<Rightarrow> nat \<Rightarrow> nat list" where
  "neighbours edges i =
     fromkeys (concat (map (\<lambda>(u, v). (if u = i then [v] else []) @ (if v = i then [u] else [])) edges))"

definition graph_ring :: "(nat \<times> nat) list \<Rightarrow> nat \<Rightarrow> error + nat list" where
  "graph_ring edges i =
     (if \<exists>(u, v) \<in> set edges. u = i \<or> v = i then Inr (neighbours edges i) else Inl KeyError)"

text \<open>\<^verbatim>\<open>[colors[ri] for ri in ring]\<close>: an IndexError beyond the colour array.\<close>

definition ring_colors :: "'c list \<Rightarrow> nat list \<Rightarrow> error + 'c list" where
  "ring_colors colors ring = mapM (py_nth colors) ring"

definition is_contour :: "'c list \<Rightarrow> nat \<Rightarrow> nat list \<Rightarrow> error + bool" where
  "is_contour colors center_index ring_indices =
     bind (py_nth colors center_index) (\<lambda>center_color.
     bind (ring_colors colors ring_indices) (\<lambda>rcs.
     Inr (\<exists>r \<in> set rcs. r \<noteq> center_color)))"

text \<open>A dictionary that keeps insertion order: lookup, and assignment to a key.\<close>

fun dict_set :: "'k \<Rightarrow> 'v \<Rightarrow> ('k \<times> 'v) list \<Rightarrow> ('k \<times> 'v) list" where
  "dict_set k v [] = [(k, v)]"
| "dict_set k v ((k', v') # ps) = (if k = k' then (k, v) # ps else (k', v') # dict_set k v ps)"

definition dict_get :: "('k \<times> 'v) list \<Rightarrow> 'k \<Rightarrow> error + 'v" where
  "dict_get d k = (case map_of d k of None \<Rightarrow> Inl KeyError | Some v \<Rightarrow> Inr v)"

text \<open>The first pass: bucket every vertex by colour, as contour or as feature.\<close>

definition classify ::
  "'c list \<Rightarrow> ('c \<times> bucket) list \<Rightarrow> nat \<times> 'c \<times> nat list \<Rightarrow> error + ('c \<times> bucket) list" where
  "classify colors features entry =
     (case entry of (index, v_col, i_ring) \<Rightarrow>
        let features = (if map_of features v_col = None
                        then features @ [(v_col, \<lparr>feature = [], contour = []\<rparr>)] else features)
        in bind (is_contour colors index i_ring) (\<lambda>c.
           bind (dict_get features v_col) (\<lambda>b.
           if c then Inr (dict_set v_col (b\<lparr>contour := contour b @ [index]\<rparr>) features)
           else Inr (dict_set v_col (b\<lparr>feature := feature b @ [index]\<rparr>) features))))"

fun first_pass ::
  "'c list \<Rightarrow> ('c \<times> bucket) list \<Rightarrow> (nat \<times> 'c \<times> nat list) list \<Rightarrow> error + ('c \<times> bucket) list" where
  "first_pass colors features [] = Inr features"
| "first_pass colors features (e # es) =
     bind (classify colors features e) (\<lambda>features. first_pass colors features es)"

text \<open>
  \<^verbatim>\<open>Counter(xs).most_common(1)[0][0]\<close>: the first key, in order of first occurrence, whose
  count is maximal; an IndexError on no elements.
\<close>

definition most_common :: "'c list \<Rightarrow> error + 'c" where
  "most_common xs =
     (case fromkeys xs of
        [] \<Rightarrow> Inl IndexError
      | k # ks \<Rightarrow> Inr (fold (\<lambda>c best. if count_list xs best < count_list xs c then c else best) ks k))"

text \<open>
  The inner loop over the feature vertices of a small bucket: a vertex whose most frequent
  neighbour colour is the bucket's own key ends the loop; any other vertex is appended to the
  feature and the contour list of that colour's bucket.
\<close>

fun absorb_vertices ::
  "'c list \<Rightarrow> nat list list \<Rightarrow> 'c \<Rightarrow> ('c \<times> bucket) list \<Rightarrow> nat list \<Rightarrow> error + ('c \<times> bucket) list" where
  "absorb_vertices colors rings key features [] = Inr features"
| "absorb_vertices colors rings key features (idx # idxs) =
     bind (py_nth rings idx) (\<lambda>ring.
     bind (ring_colors colors ring) (\<lambda>rcs.
     bind (most_common rcs) (\<lambda>mc.
     if mc = key then Inr features
     else bind (dict_get features mc) (\<lambda>b.
          absorb_vertices colors rings key
            (dict_set mc (b\<lparr>feature := feature b @ [idx], contour := contour b @ [idx]\<rparr>) features)
            idxs))))"

text \<open>
  The outer loop over the keys, in dictionary order; a bucket is inspected in the state the
  earlier keys left it in. It returns the dictionary and the keys to remove.
\<close>

fun absorb ::
  "'c list \<Rightarrow> nat list list \<Rightarrow> ('c \<times> bucket) list \<Rightarrow> 'c list \<Rightarrow> 'c list
     \<Rightarrow> error + (('c \<times> bucket) list \<times> 'c list)" where
  "absorb colors rings features elem_to_remove [] = Inr (features, elem_to_remove)"
| "absorb colors rings features elem_to_remove (key # keys) =
     bind (dict_get features key) (\<lambda>feat.
     if length (feature feat) < 3 then
       bind (absorb_vertices colors rings key features (feature feat)) (\<lambda>features.
       absorb colors rings features (elem_to_remove @ [key]) keys)
     else absorb colors rings features elem_to_remove keys)"

definition segment :: "'c list \<Rightarrow> (nat \<times> nat) list \<Rightarrow> error + ('c \<times> bucket) list" where
  "segment colors edges =
     bind (mapM (graph_ring edges) [0..<length colors]) (\<lambda>one_rings_indices.
     bind (first_pass colors [] (zip [0..<length colors] (zip colors one_rings_indices))) (\<lambda>features.
     bind (absorb colors one_rings_indices features [] (map fst features)) (\<lambda>(features, elem_to_remove).
     Inr (filter (\<lambda>(k, b). k \<notin> set elem_to_remove) features))))"

definition extract_feature_and_contour_from_colour :: "'c colored \<Rightarrow> error + ('c \<times> bucket) list" where
  "extract_feature_and_contour_from_colour colored =
     (case colored of
        Data has_colors m \<Rightarrow>
          if has_colors then segment (vertex_colors m) (edges_unique m) else Inl AssertionError
      | Trimesh m \<Rightarrow> segment (vertex_colors m) (edges_unique m)
      | Other \<Rightarrow> Inl NotImplementedError)"

text \<open>
  A strip of twelve triangles on two rows of seven vertices (vertex \<open>2 * j\<close> above vertex
  \<open>2 * j + 1\<close> in column \<open>j\<close>). Columns 0 to 2 are red, column 3 has an interpolated
  colour, columns 4 to 6 are blue.
\<close>

type_synonym rgba = "nat \<times> nat \<times> nat \<times> nat"

definition strip_edges :: "(nat \<times> nat) list" where
  "strip_edges = [(0, 1), (0, 2), (0, 3), (1, 3), (2, 3), (2, 4), (2, 5), (3, 5), (4, 5),
     (4, 6), (4, 7), (5, 7), (6, 7), (6, 8), (6, 9), (7, 9), (8, 9), (8, 10), (8, 11), (9, 11),
     (10, 11), (10, 12), (10, 13), (11, 13), (12, 13)]"

definition strip_faces :: "nat list list" where
  "strip_faces = [[0, 1, 3], [0, 3, 2], [2, 3, 5], [2, 5, 4], [4, 5, 7], [4, 7, 6],
     [6, 7, 9], [6, 9, 8], [8, 9, 11], [8, 11, 10], [10, 11, 13], [10, 13, 12]]"

definition red :: rgba where "red = (255, 0, 0, 255)"
definition blue :: rgba where "blue = (0, 0, 255, 255)"
definition mixed :: rgba where "mixed = (128, 0, 128, 255)"

definition strip_mesh :: "(real \<times> real \<times> real) list \<Rightarrow> rgba mesh" where
  "strip_mesh pos =
     \<lparr>vertices = pos, faces = strip_faces,
      vertex_colors = [red, red, red, red, red, red, mixed, mixed, blue, blue, blue, blue, blue, blue],
      edges_unique = strip_edges\<rparr>"

text \<open>
  What the first pass guarantees: the keys are distinct, and a vertex in a feature list has a
  non-empty ring whose vertices all have the colour of the bucket's key.
\<close>

definition feature_vertex :: "'c list \<Rightarrow> nat list list \<Rightarrow> 'c \<Rightarrow> nat \<Rightarrow> bool" where
  "feature_vertex colors rings k idx \<longleftrightarrow>
     idx < length rings \<and> rings ! idx \<noteq> [] \<and>
     (\<forall>ri \<in> set (rings ! idx). ri < length colors \<and> colors ! ri = k)"

definition buckets_ok :: "'c list \<Rightarrow> nat list list \<Rightarrow> ('c \<times> bucket) list \<Rightarrow> bool" where
  "buckets_ok colors rings features \<longleftrightarrow>
     distinct (map fst features) \<and>
     (\<forall>(k, b) \<in> set features. \<forall>idx \<in> set (feature b). feature_vertex colors rings k idx)"

section \<open>Properties\<close>

text \<open>
  Claim C6. The forward pass of the gradient-reversal operator returns its input unchanged, and
  the backward pass, run on the context the forward pass left, returns the negated incoming
  gradient scaled by alpha, with no gradient for alpha itself.
\<close>

theorem gradient_reversal_forward_backward:
  "snd (GradientReversalFn_forward ctx x alpha) = x \<and>
   GradientReversalFn_backward (fst (GradientReversalFn_forward ctx x alpha)) g
     = (map (map (\<lambda>v. - (alpha * v))) g, None) \<and>
   snd (GradientReversalLayer_forward l x) = x \<and>
   GradientReversalFn_backward (fst (GradientReversalLayer_forward l x)) g
     = (map (map (\<lambda>v. - (grl_alpha l * v))) g, None)"
  by (simp add: GradientReversalFn_forward_def GradientReversalFn_backward_def
      GradientReversalLayer_forward_def mult.commute)

subsection \<open>Pooling\<close>


lemma length_scatter_rows [simp]: "length (scatter_rows out ps) = length out"
  by (induction out ps rule: scatter_rows.induct) auto

lemma shape2_update_vadd:
  assumes "shape2 n c out" "length s = c"
  shows "shape2 n c (out[r := vadd (out ! r) s])"
proof (cases "r < length out")
  case True
  then have "length (out ! r) = c" using assms(1) by (simp add: shape2_def)
  then have "length (vadd (out ! r) s) = c" using assms(2) by (simp add: vadd_def)
  then show ?thesis
    using assms(1) by (auto simp: shape2_def dest!: set_update_subset_insert[THEN subsetD])
next
  case False
  then have "out[r := vadd (out ! r) s] = out" by (simp add: not_less list_update_beyond)
  then show ?thesis using assms(1) by simp
qed

lemma shape2_scatter_rows:
  "shape2 n c out \<Longrightarrow> \<forall>p \<in> set ps. length (snd p) = c \<Longrightarrow> shape2 n c (scatter_rows out ps)"
  by (induction out ps rule: scatter_rows.induct) (auto simp: shape2_update_vadd)

lemma axpby_vec_vadd:
  "length u = c \<Longrightarrow> length v = c \<Longrightarrow> length s = c \<Longrightarrow> length t = c \<Longrightarrow>
   axpby_vec a (vadd u s) b (vadd v t) = vadd (axpby_vec a u b v) (axpby_vec a s b t)"
  by (auto simp: axpby_vec_def vadd_def list_eq_iff_nth_eq algebra_simps)

lemma axpby_mat_update:
  "length ax = length ay \<Longrightarrow>
   axpby_mat a (ax[r := u]) b (ay[r := v]) = (axpby_mat a ax b ay)[r := axpby_vec a u b v]"
  by (simp add: axpby_mat_def zip_update map_update)

lemma axpby_mat_nth:
  "r < length ax \<Longrightarrow> r < length ay \<Longrightarrow> axpby_mat a ax b ay ! r = axpby_vec a (ax ! r) b (ay ! r)"
  by (simp add: axpby_mat_def)

lemma scatter_rows_axpby:
  "shape2 n c ax \<Longrightarrow> shape2 n c ay \<Longrightarrow>
   \<forall>(r, s, t) \<in> set ps. r < n \<and> length s = c \<and> length t = c \<Longrightarrow>
   scatter_rows (axpby_mat a ax b ay) (map (\<lambda>(r, s, t). (r, axpby_vec a s b t)) ps)
     = axpby_mat a (scatter_rows ax (map (\<lambda>(r, s, t). (r, s)) ps)) b
         (scatter_rows ay (map (\<lambda>(r, s, t). (r, t)) ps))"
proof (induction ps arbitrary: ax ay)
  case Nil
  then show ?case by simp
next
  case (Cons p ps)
  obtain r s t where p: "p = (r, s, t)" by (cases p)
  from Cons.prems p have r: "r < n" "length s = c" "length t = c" by auto
  from Cons.prems have len: "length ax = n" "length ay = n"
    and rows: "length (ax ! r) = c" "length (ay ! r) = c"
    using r by (auto simp: shape2_def)
  let ?ax = "ax[r := vadd (ax ! r) s]" and ?ay = "ay[r := vadd (ay ! r) t]"
  have sx: "shape2 n c ?ax" and sy: "shape2 n c ?ay"
    using Cons.prems(1,2) r by (simp_all add: shape2_update_vadd)
  have step: "(axpby_mat a ax b ay)[r := vadd (axpby_mat a ax b ay ! r) (axpby_vec a s b t)]
      = axpby_mat a ?ax b ?ay"
    using len r rows by (simp add: axpby_mat_update axpby_mat_nth axpby_vec_vadd)
  show ?case
    using Cons.IH[OF sx sy] Cons.prems(3) by (simp add: p step)
qed

lemma mapM_Inr_iff:
  "mapM f xs = Inr ys \<longleftrightarrow> length ys = length xs \<and> (\<forall>i < length xs. f (xs ! i) = Inr (ys ! i))"
proof (induction xs arbitrary: ys)
  case Nil
  then show ?case by auto
next
  case (Cons x xs)
  show ?case
  proof (cases ys)
    case Nil
    then show ?thesis by (auto split: sum.splits)
  next
    case (Cons y ys')
    then show ?thesis
      using Cons.IH[of ys'] by (auto split: sum.splits simp: nth_Cons split: nat.splits)
  qed
qed

lemma mapM_map_Inr: "\<forall>x \<in> set xs. f x = Inr (g x) \<Longrightarrow> mapM f xs = Inr (map g xs)"
  by (induction xs) auto

lemma mapM_Inl: "x \<in> set xs \<Longrightarrow> \<forall>y \<in> set xs. f y = Inl e \<Longrightarrow> mapM f xs = Inl e"
  by (induction xs) (auto split: sum.splits)

lemma zip_entries:
  "zip (map fst es) (map2 f (map (g \<circ> (fst \<circ> snd)) es) (map (snd \<circ> snd) es))
     = map (\<lambda>(r, c, w). (r, f (g c) w)) es"
  by (induction es) auto

lemma Pool_instance_ok:
  assumes "\<forall>(r, c, w) \<in> set (entries t). r < size0 t \<and> c < length x"
  shows "Pool_instance t x = Inr (scatter_rows (replicate (size0 t) (replicate (width x) 0))
           (map (\<lambda>(r, c, w). (r, map (\<lambda>v. v * w) (x ! c))) (entries t)))"
proof -
  have c: "\<not> (\<exists>i \<in> set (map (fst \<circ> snd) (entries t)). length x \<le> i)"
    using assms by fastforce
  have r: "\<not> (\<exists>r \<in> set (map fst (entries t)). size0 t \<le> r)"
    using assms by fastforce
  have "map ((!) x) (map (fst \<circ> snd) (entries t)) = map ((!) x \<circ> (fst \<circ> snd)) (entries t)"
    by simp
  then show ?thesis
    using c r zip_entries[where f = "\<lambda>r w. map (\<lambda>v. v * w) r" and g = "(!) x" and es = "entries t"]
    by (simp add: Pool_instance_def index_select_def bind_def Let_def scatter_add_def
        del: set_map map_map)
qed

lemma axpby_mat_zero:
  "axpby_mat a (replicate n (replicate c 0)) b (replicate n (replicate c 0))
     = replicate n (replicate c 0)"
  by (induction n) (auto simp: axpby_mat_def axpby_vec_def list_eq_iff_nth_eq)

lemma axpby_vec_scale:
  "map (\<lambda>v. v * w) (axpby_vec a u b v) = axpby_vec a (map (\<lambda>v. v * w) u) b (map (\<lambda>v. v * w) v)"
  by (auto simp: axpby_vec_def list_eq_iff_nth_eq algebra_simps)

lemma Pool_instance_axpby:
  assumes x: "shape2 V C x" and y: "shape2 V C y"
  shows "Pool_instance t (axpby_mat a x b y)
    = lift2 (\<lambda>p q. axpby_mat a p b q) (Pool_instance t x) (Pool_instance t y)"
proof -
  let ?z = "axpby_mat a x b y"
  have lz: "length ?z = V" and lx: "length x = V" and ly: "length y = V"
    using x y by (simp_all add: axpby_mat_def shape2_def)
  have wz: "width ?z = width x" and wy: "width y = width x"
    using x y by (cases x; cases y; simp add: width_def axpby_mat_def axpby_vec_def shape2_def)+
  show ?thesis
  proof (cases "\<exists>i \<in> set (map (fst \<circ> snd) (entries t)). V \<le> i")
    case True
    then show ?thesis
      using lz lx ly by (simp add: Pool_instance_def index_select_def bind_def lift2_def Let_def)
  next
    case colok: False
    show ?thesis
    proof (cases "\<exists>r \<in> set (map fst (entries t)). size0 t \<le> r")
      case True
      then show ?thesis
        using colok lz lx ly
        by (simp add: Pool_instance_def index_select_def bind_def lift2_def Let_def scatter_add_def)
    next
      case rowok: False
      from colok rowok
      have ok: "\<forall>(r, c, w) \<in> set (entries t). r < size0 t \<and> c < V"
        by fastforce
      let ?ps = "map (\<lambda>(r, c, w). (r, map (\<lambda>v. v * w) (x ! c), map (\<lambda>v. v * w) (y ! c))) (entries t)"
      let ?Z = "replicate (size0 t) (replicate (width x) (0::real))"
      have wC: "V = 0 \<or> width x = C"
        using x by (cases x) (auto simp: shape2_def width_def)
      have es: "map (\<lambda>(r, c, w). (r, map (\<lambda>v. v * w) (?z ! c))) (entries t)
          = map (\<lambda>(r, s, t). (r, axpby_vec a s b t)) ?ps"
        using ok lx ly by (auto simp: axpby_mat_nth axpby_vec_scale)
      have psx: "map (\<lambda>(r, s, t). (r, s)) ?ps = map (\<lambda>(r, c, w). (r, map (\<lambda>v. v * w) (x ! c))) (entries t)"
        and psy: "map (\<lambda>(r, s, t). (r, t)) ?ps = map (\<lambda>(r, c, w). (r, map (\<lambda>v. v * w) (y ! c))) (entries t)"
        by auto
      have Z: "shape2 (size0 t) (width x) ?Z" by (simp add: shape2_def)
      have pv: "\<forall>(r, s, t') \<in> set ?ps. r < size0 t \<and> length s = width x \<and> length t' = width x"
        using ok wC x y lx ly by (auto simp: shape2_def)
      have "scatter_rows ?Z (map (\<lambda>(r, c, w). (r, map (\<lambda>v. v * w) (?z ! c))) (entries t))
        = axpby_mat a (scatter_rows ?Z (map (\<lambda>(r, c, w). (r, map (\<lambda>v. v * w) (x ! c))) (entries t))) b
           (scatter_rows ?Z (map (\<lambda>(r, c, w). (r, map (\<lambda>v. v * w) (y ! c))) (entries t)))"
        using scatter_rows_axpby[OF Z Z pv, of a b] unfolding es psx psy axpby_mat_zero .
      then show ?thesis
        using ok lx ly lz wz wy
        by (simp add: Pool_instance_ok lift2_def)
    qed
  qed
qed

lemma Pool_instance_error_length:
  "length x = length y \<Longrightarrow> Pool_instance t x = Inl e \<longleftrightarrow> Pool_instance t y = Inl e"
  by (auto simp: Pool_instance_def index_select_def bind_def scatter_add_def Let_def
      split: if_splits)

text \<open>
  In exact arithmetic pooling is linear in the signal, and raises for \<open>a*x + b*y\<close>
  exactly when it raises for \<open>x\<close> or \<open>y\<close>.
\<close>

lemma Pool_axpby:
  "shape3 B V C x \<Longrightarrow> shape3 B V C y \<Longrightarrow>
   Pool (axpby a x b y) t = lift2 (\<lambda>p q. axpby a p b q) (Pool x t) (Pool y t)"
proof (induction x arbitrary: y B)
  case Nil
  then show ?case by (simp add: Pool_def axpby_def lift2_def shape3_def)
next
  case (Cons x0 xs)
  then obtain y0 ys where y: "y = y0 # ys" by (cases y) (auto simp: shape3_def)
  from Cons.prems y have sh: "shape2 V C x0" "shape2 V C y0"
    and tl: "shape3 (B - 1) V C xs" "shape3 (B - 1) V C ys"
    by (auto simp: shape3_def)
  have hd: "Pool_instance t (axpby_mat a x0 b y0)
      = lift2 (\<lambda>p q. axpby_mat a p b q) (Pool_instance t x0) (Pool_instance t y0)"
    by (rule Pool_instance_axpby[OF sh])
  have agree: "\<And>e. Pool_instance t x0 = Inl e \<longleftrightarrow> Pool_instance t y0 = Inl e"
    using sh by (intro Pool_instance_error_length) (simp add: shape2_def)
  have IH: "mapM (Pool_instance t) (axpby a xs b ys)
      = lift2 (\<lambda>p q. axpby a p b q) (mapM (Pool_instance t) xs) (mapM (Pool_instance t) ys)"
    using Cons.IH[OF tl] by (simp add: Pool_def)
  show ?case
  proof (cases "Pool_instance t x0")
    case (Inl e)
    then show ?thesis using agree[of e] hd by (simp add: Pool_def y axpby_def lift2_def)
  next
    case (Inr px)
    then obtain py where py: "Pool_instance t y0 = Inr py"
      using agree by (cases "Pool_instance t y0") auto
    have "axpby a (x0 # xs) b (y0 # ys) = axpby_mat a x0 b y0 # axpby a xs b ys"
      by (simp add: axpby_def)
    then show ?thesis
      using Inr py hd IH
      by (simp add: Pool_def y lift2_def axpby_def split: sum.splits)
  qed
qed

lemma scatter_rows_nth:
  "shape2 n c out \<Longrightarrow> \<forall>(r', s) \<in> set ps. r' < n \<and> length s = c \<Longrightarrow> r < n \<Longrightarrow> j < c \<Longrightarrow>
   scatter_rows out ps ! r ! j = out ! r ! j + (\<Sum>(r', s)\<leftarrow>ps. if r' = r then s ! j else 0)"
proof (induction ps arbitrary: out)
  case Nil
  then show ?case by simp
next
  case (Cons p ps)
  obtain r' s where p: "p = (r', s)" by (cases p)
  from Cons.prems p have r': "r' < n" "length s = c" by auto
  have sh: "shape2 n c (out[r' := vadd (out ! r') s])"
    using Cons.prems(1) r' by (simp add: shape2_update_vadd)
  have len: "length out = n" "length (out ! r') = c"
    using Cons.prems(1) r' by (auto simp: shape2_def)
  have "out[r' := vadd (out ! r') s] ! r ! j = out ! r ! j + (if r' = r then s ! j else 0)"
    using len r' Cons.prems(3,4) by (auto simp: vadd_def nth_list_update)
  then show ?case
    using Cons.IH[OF sh] Cons.prems(2-4) by (simp add: p)
qed

lemma Pool_instance_sum:
  assumes ok: "\<forall>(r, c, w) \<in> set (entries t). r < size0 t \<and> c < V"
    and x: "shape2 V C x" and V: "0 < V"
  shows "\<exists>out. Pool_instance t x = Inr out \<and> shape2 (size0 t) C out \<and>
    (\<forall>r < size0 t. \<forall>j < C.
       out ! r ! j = (\<Sum>(r', c, w)\<leftarrow>entries t. if r' = r then w * x ! c ! j else 0))"
proof -
  let ?ps = "map (\<lambda>(r, c, w). (r, map (\<lambda>v. v * w) (x ! c))) (entries t)"
  let ?Z = "replicate (size0 t) (replicate C (0::real))"
  have lx: "length x = V" using x by (simp add: shape2_def)
  have w: "width x = C" using x V by (cases x) (auto simp: shape2_def width_def)
  have P: "Pool_instance t x = Inr (scatter_rows ?Z ?ps)"
    using Pool_instance_ok[of t x] ok lx w by simp
  have Z: "shape2 (size0 t) C ?Z" by (simp add: shape2_def)
  have ps: "\<forall>(r', s) \<in> set ?ps. r' < size0 t \<and> length s = C"
    using ok x lx by (auto simp: shape2_def)
  then have ps': "\<forall>p \<in> set ?ps. length (snd p) = C" by auto
  have "scatter_rows ?Z ?ps ! r ! j
      = (\<Sum>(r', c, w)\<leftarrow>entries t. if r' = r then w * x ! c ! j else 0)"
    if r: "r < size0 t" and j: "j < C" for r j
  proof -
    have "(\<Sum>(r', s)\<leftarrow>?ps. if r' = r then s ! j else 0)
        = (\<Sum>(r', c, w)\<leftarrow>entries t. if r' = r then w * x ! c ! j else 0)"
      unfolding map_map
    proof (rule arg_cong[where f = sum_list], rule map_cong[OF refl])
      fix e assume e: "e \<in> set (entries t)"
      obtain r' c w where [simp]: "e = (r', c, w)" by (cases e)
      from e ok have "c < V" by auto
      then have "length (x ! c) = C" using x lx by (simp add: shape2_def)
      then show "((\<lambda>(r', s). if r' = r then s ! j else 0) \<circ>
           (\<lambda>(r, c, w). (r, map (\<lambda>v. v * w) (x ! c)))) e
         = (case e of (r', c, w) \<Rightarrow> if r' = r then w * x ! c ! j else 0)"
        using j by simp
    qed
    then show ?thesis
      using scatter_rows_nth[OF Z ps r j] r j by simp
  qed
  then show ?thesis
    using P shape2_scatter_rows[OF Z ps'] by simp
qed

text \<open>
  With every stored entry in range, the output at a row is the sum of
  \<open>weight * signal[column]\<close> over the entries with that row.
\<close>

lemma Pool_sum:
  assumes ok: "\<forall>(r, c, w) \<in> set (entries t). r < size0 t \<and> c < V"
    and x: "shape3 B V C x" and V: "0 < V"
  shows "\<exists>out. Pool x t = Inr out \<and> shape3 B (size0 t) C out \<and>
        (\<forall>i < B. \<forall>r < size0 t. \<forall>j < C.
           out ! i ! r ! j = (\<Sum>(r', c, w)\<leftarrow>entries t. if r' = r then w * x ! i ! c ! j else 0))"
proof -
  have each: "\<exists>out. Pool_instance t m = Inr out \<and> shape2 (size0 t) C out \<and>
    (\<forall>r < size0 t. \<forall>j < C.
       out ! r ! j = (\<Sum>(r', c, w)\<leftarrow>entries t. if r' = r then w * m ! c ! j else 0))"
    if "m \<in> set x" for m
    using Pool_instance_sum[OF ok _ V, of C m] x that by (simp add: shape3_def)
  define G where "G m = (case Pool_instance t m of Inr out \<Rightarrow> out | Inl _ \<Rightarrow> [])" for m
  have G: "Pool_instance t m = Inr (G m)" if "m \<in> set x" for m
    using each[OF that] by (auto simp: G_def)
  have P: "Pool x t = Inr (map G x)"
    unfolding Pool_def by (rule mapM_map_Inr) (simp add: G)
  have lx: "length x = B" using x by (simp add: shape3_def)
  have "shape3 B (size0 t) C (map G x)"
    using each G lx by (fastforce simp: shape3_def)
  moreover have "\<forall>i < B. \<forall>r < size0 t. \<forall>j < C.
      map G x ! i ! r ! j = (\<Sum>(r', c, w)\<leftarrow>entries t. if r' = r then w * x ! i ! c ! j else 0)"
  proof (intro allI impI)
    fix i r j assume i: "i < B" and r: "r < size0 t" and j: "j < C"
    from i lx have m: "x ! i \<in> set x" by simp
    show "map G x ! i ! r ! j = (\<Sum>(r', c, w)\<leftarrow>entries t. if r' = r then w * x ! i ! c ! j else 0)"
      using each[OF m] G[OF m] i lx r j by auto
  qed
  ultimately show ?thesis using P by blast
qed

lemma replicate_2: "replicate 2 v = [v, v]"
  by (simp add: numeral_2_eq_2)

subsection \<open>Pooling on float32 tensors\<close>

lemma exponent_below_eq:
  assumes "- 126 \<le> e" "e \<le> int k - 126" "2 powi e \<le> \<bar>v\<bar>" "\<bar>v\<bar> < 2 powi (e + 1)"
  shows "exponent_below k v = e"
  using assms
proof (induction k)
  case 0
  then show ?case by simp
next
  case (Suc k)
  show ?case
  proof (cases "2 powi (int (Suc k) - 126) \<le> \<bar>v\<bar>")
    case True
    with Suc.prems(4) have "(2::real) powi (int (Suc k) - 126) < 2 powi (e + 1)" by simp
    then have "int (Suc k) - 126 < e + 1"
      using power_int_increasing[of "e + 1" "int (Suc k) - 126" "2::real"]
      by (cases "int (Suc k) - 126 < e + 1") auto
    with Suc.prems(2) True show ?thesis by simp
  next
    case False
    with Suc.prems(3) have "e \<noteq> int (Suc k) - 126" by auto
    with Suc.prems(2) have "e \<le> int k - 126" by simp
    with Suc False show ?thesis by simp
  qed
qed

lemma exponent32_eq:
  "- 126 \<le> e \<Longrightarrow> e \<le> 127 \<Longrightarrow> 2 powi e \<le> \<bar>v\<bar> \<Longrightarrow> \<bar>v\<bar> < 2 powi (e + 1) \<Longrightarrow> exponent32 v = e"
  unfolding exponent32_def by (rule exponent_below_eq) simp_all

lemma exponent_below_small: "\<bar>v\<bar> < 2 powi (- 125) \<Longrightarrow> exponent_below k v = - 126"
proof (induction k)
  case 0
  then show ?case by simp
next
  case (Suc k)
  have "(2::real) powi (- 125) \<le> 2 powi (int (Suc k) - 126)"
    by (rule power_int_increasing) simp_all
  with Suc show ?case by simp
qed

lemma fl32_0: "fl32 0 = Some 0"
  by (simp add: fl32_def round_even_def)

lemmas fl32_eval = fl32_def round_even_def exponent32_eq[where e = 0] exponent32_eq[where e = 1]
  exponent32_eq[where e = 2] exponent32_eq[where e = 3] exponent32_eq[where e = 4]
  exponent32_eq[where e = 5] exponent32_eq[where e = 24]

lemma length_scatter_rows_f32 [simp]: "length (scatter_rows_f32 out ps) = length out"
  by (induction out ps rule: scatter_rows_f32.induct) auto

lemma shape2_update_vadd_f32:
  assumes "shape2 n c out" "length s = c"
  shows "shape2 n c (out[r := vadd_f32 (out ! r) s])"
proof (cases "r < length out")
  case True
  then have "length (out ! r) = c" using assms(1) by (simp add: shape2_def)
  then have "length (vadd_f32 (out ! r) s) = c" using assms(2) by (simp add: vadd_f32_def)
  then show ?thesis
    using assms(1) by (auto simp: shape2_def dest!: set_update_subset_insert[THEN subsetD])
next
  case False
  then have "out[r := vadd_f32 (out ! r) s] = out" by (simp add: not_less list_update_beyond)
  then show ?thesis using assms(1) by simp
qed

lemma shape2_scatter_rows_f32:
  "shape2 n c out \<Longrightarrow> \<forall>p \<in> set ps. length (snd p) = c \<Longrightarrow>
   shape2 n c (scatter_rows_f32 out ps)"
  by (induction out ps rule: scatter_rows_f32.induct) (auto simp: shape2_update_vadd_f32)

lemma scatter_rows_f32_nth:
  "shape2 n c out \<Longrightarrow> \<forall>(r', s) \<in> set ps. r' < n \<and> length s = c \<Longrightarrow> r < n \<Longrightarrow> j < c \<Longrightarrow>
   scatter_rows_f32 out ps ! r ! j
     = fold (\<lambda>(r', s) acc. if r' = r then fadd acc (s ! j) else acc) ps (out ! r ! j)"
proof (induction ps arbitrary: out)
  case Nil
  then show ?case by simp
next
  case (Cons p ps)
  obtain r' s where p: "p = (r', s)" by (cases p)
  from Cons.prems p have r': "r' < n" "length s = c" by auto
  have sh: "shape2 n c (out[r' := vadd_f32 (out ! r') s])"
    using Cons.prems(1) r' by (simp add: shape2_update_vadd_f32)
  have len: "length out = n" "length (out ! r') = c"
    using Cons.prems(1) r' by (auto simp: shape2_def)
  have "out[r' := vadd_f32 (out ! r') s] ! r ! j
      = (if r' = r then fadd (out ! r ! j) (s ! j) else out ! r ! j)"
    using len r' Cons.prems(3,4) by (auto simp: vadd_f32_def nth_list_update)
  then show ?case
    using Cons.IH[OF sh] Cons.prems(2-4) by (simp add: p)
qed

lemma Pool_instance_f32_ok:
  assumes "\<forall>(r, c, w) \<in> set (entries t). r < size0 t \<and> c < length x"
  shows "Pool_instance_f32 t x
    = Inr (scatter_rows_f32 (replicate (size0 t) (replicate (width x) (Some 0)))
           (map (\<lambda>(r, c, w). (r, map (\<lambda>v. fmul v (Some w)) (x ! c))) (entries t)))"
proof -
  have c: "\<not> (\<exists>i \<in> set (map (fst \<circ> snd) (entries t)). length x \<le> i)"
    using assms by fastforce
  have r: "\<not> (\<exists>r \<in> set (map fst (entries t)). size0 t \<le> r)"
    using assms by fastforce
  have "map ((!) x) (map (fst \<circ> snd) (entries t)) = map ((!) x \<circ> (fst \<circ> snd)) (entries t)"
    by simp
  then show ?thesis
    using c r zip_entries[where f = "\<lambda>r w. map (\<lambda>v. fmul v (Some w)) r" and g = "(!) x"
        and es = "entries t"]
    by (simp add: Pool_instance_f32_def index_select_def bind_def Let_def scatter_add_f32_def
        del: set_map map_map)
qed

lemma Pool_instance_f32_fold:
  assumes ok: "\<forall>(r, c, w) \<in> set (entries t). r < size0 t \<and> c < V"
    and x: "shape2 V C x" and V: "0 < V"
  shows "\<exists>out. Pool_instance_f32 t x = Inr out \<and> shape2 (size0 t) C out \<and>
    (\<forall>r < size0 t. \<forall>j < C.
       out ! r ! j = fold (\<lambda>(r', c, w) acc.
                             if r' = r then fadd acc (fmul (x ! c ! j) (Some w)) else acc)
                       (entries t) (Some 0))"
proof -
  let ?ps = "map (\<lambda>(r, c, w). (r, map (\<lambda>v. fmul v (Some w)) (x ! c))) (entries t)"
  let ?Z = "replicate (size0 t) (replicate C (Some (0::real)))"
  have lx: "length x = V" using x by (simp add: shape2_def)
  have w: "width x = C" using x V by (cases x) (auto simp: shape2_def width_def)
  have P: "Pool_instance_f32 t x = Inr (scatter_rows_f32 ?Z ?ps)"
    using Pool_instance_f32_ok[of t x] ok lx w by simp
  have Z: "shape2 (size0 t) C ?Z" by (simp add: shape2_def)
  have ps: "\<forall>(r', s) \<in> set ?ps. r' < size0 t \<and> length s = C"
    using ok x lx by (auto simp: shape2_def)
  then have ps': "\<forall>p \<in> set ?ps. length (snd p) = C" by auto
  have "scatter_rows_f32 ?Z ?ps ! r ! j
      = fold (\<lambda>(r', c, w) acc. if r' = r then fadd acc (fmul (x ! c ! j) (Some w)) else acc)
          (entries t) (Some 0)"
    if r: "r < size0 t" and j: "j < C" for r j
  proof -
    have "fold (\<lambda>(r', s) acc. if r' = r then fadd acc (s ! j) else acc) ?ps (Some 0)
        = fold (\<lambda>(r', c, w) acc. if r' = r then fadd acc (fmul (x ! c ! j) (Some w)) else acc)
            (entries t) (Some 0)"
      unfolding fold_map
    proof (rule fold_cong[OF refl refl])
      fix e assume e: "e \<in> set (entries t)"
      obtain r' c w where [simp]: "e = (r', c, w)" by (cases e)
      from e ok have "c < V" by auto
      then have "length (x ! c) = C" using x lx by (simp add: shape2_def)
      then show "((\<lambda>(r', s) acc. if r' = r then fadd acc (s ! j) else acc) \<circ>
           (\<lambda>(r, c, w). (r, map (\<lambda>v. fmul v (Some w)) (x ! c)))) e
         = (case e of (r', c, w) \<Rightarrow> \<lambda>acc.
              if r' = r then fadd acc (fmul (x ! c ! j) (Some w)) else acc)"
        using j by (simp add: fun_eq_iff)
    qed
    then show ?thesis
      using scatter_rows_f32_nth[OF Z ps r j] r j by simp
  qed
  then show ?thesis
    using P shape2_scatter_rows_f32[OF Z ps'] by simp
qed

lemma Pool_f32_fold:
  assumes ok: "\<forall>(r, c, w) \<in> set (entries t). r < size0 t \<and> c < V"
    and x: "shape3 B V C x" and V: "0 < V"
  shows "\<exists>out. Pool_f32 x t = Inr out \<and> shape3 B (size0 t) C out \<and>
    (\<forall>i < B. \<forall>r < size0 t. \<forall>j < C.
       out ! i ! r ! j = fold (\<lambda>(r', c, w) acc.
                                 if r' = r then fadd acc (fmul (x ! i ! c ! j) (Some w)) else acc)
                           (entries t) (Some 0))"
proof -
  let ?row = "\<lambda>m r j. fold (\<lambda>(r', c, w) acc.
      if r' = r then fadd acc (fmul (m ! c ! j) (Some w)) else acc) (entries t) (Some 0)"
  have each: "\<exists>out. Pool_instance_f32 t m = Inr out \<and> shape2 (size0 t) C out \<and>
    (\<forall>r < size0 t. \<forall>j < C. out ! r ! j = ?row m r j)"
    if "m \<in> set x" for m
    using Pool_instance_f32_fold[OF ok _ V, of C m] x that by (simp add: shape3_def)
  define G where "G m = (case Pool_instance_f32 t m of Inr out \<Rightarrow> out | Inl _ \<Rightarrow> [])" for m
  have G: "Pool_instance_f32 t m = Inr (G m)" if "m \<in> set x" for m
    using each[OF that] by (auto simp: G_def)
  have P: "Pool_f32 x t = Inr (map G x)"
    unfolding Pool_f32_def by (rule mapM_map_Inr) (simp add: G)
  have lx: "length x = B" using x by (simp add: shape3_def)
  have "shape3 B (size0 t) C (map G x)"
    using each G lx by (fastforce simp: shape3_def)
  moreover have "\<forall>i < B. \<forall>r < size0 t. \<forall>j < C. map G x ! i ! r ! j = ?row (x ! i) r j"
  proof (intro allI impI)
    fix i r j assume i: "i < B" and r: "r < size0 t" and j: "j < C"
    from i lx have m: "x ! i \<in> set x" by simp
    show "map G x ! i ! r ! j = ?row (x ! i) r j"
      using each[OF m] G[OF m] i lx r j by auto
  qed
  ultimately show ?thesis using P by blast
qed

lemmas pool_f32_eval = Pool_f32_def Pool_instance_f32_def index_select_def bind_def scatter_add_f32_def
  width_def vadd_f32_def replicate_2 fmul_def fadd_def axpby_f32_def axpby_mat_f32_def
  axpby_vec_f32_def lift2_def

text \<open>Integers of magnitude up to \<open>2 ^ 24\<close> are float32 numbers.\<close>

lemma round_even_of_int: "round_even (of_int m) = m"
  by (simp add: round_even_def)

lemma fl32_of_int:
  assumes "\<bar>n\<bar> \<le> 2 ^ 24"
  shows "fl32 (of_int n) = Some (of_int n)"
proof (cases "n = 0")
  case True
  then show ?thesis by (simp add: fl32_0)
next
  case False
  define k where "k = nat \<bar>n\<bar>"
  have k1: "1 \<le> k" and k24: "k \<le> 2 ^ 24" using False assms by (auto simp: k_def nat_le_iff)
  from ex_power_ivl1[of 2 k] k1 obtain e where e: "2 ^ e \<le> k" "k < 2 ^ (e + 1)" by auto
  from e(1) k24 have "(2::nat) ^ e \<le> 2 ^ 24" by (rule order_trans)
  then have e24: "e \<le> 24" by (rule power_le_imp_le_exp[rotated]) simp
  have av: "\<bar>of_int n :: real\<bar> = of_nat k" by (simp add: k_def)
  have lo: "(2::real) powi (int e) \<le> \<bar>of_int n\<bar>"
    unfolding av power_int_of_nat using e(1) by (metis of_nat_le_iff of_nat_numeral of_nat_power)
  have hi: "\<bar>of_int n :: real\<bar> < 2 powi (int e + 1)"
  proof -
    have "real k < 2 ^ (e + 1)" using e(2) by (metis of_nat_less_iff of_nat_numeral of_nat_power)
    moreover have "int e + 1 = int (e + 1)" by simp
    ultimately show ?thesis unfolding av by (simp only: power_int_of_nat)
  qed
  have ex: "exponent32 (of_int n) = int e"
    using e24 by (intro exponent32_eq lo hi) simp_all
  define u :: real where "u = 2 powi (int e - 23)"
  have upos: "0 < u" by (simp add: u_def)
  have "\<exists>m. (of_int n :: real) = of_int m * u"
  proof (cases "e \<le> 23")
    case True
    then have "int e - 23 = - int (23 - e)" by simp
    then have "u = inverse (2 ^ (23 - e))"
      unfolding u_def by (simp only: power_int_minus power_int_of_nat)
    then have "(of_int n :: real) = of_int (n * 2 ^ (23 - e)) * u" by simp
    then show ?thesis by blast
  next
    case False
    with e24 have e: "e = 24" by simp
    with \<open>2 ^ e \<le> k\<close> k24 have "k = 2 ^ 24" by simp
    then have "\<bar>n\<bar> = 2 * 2 ^ 23" by (simp add: k_def)
    then have "n = 2 * (2 ^ 23) \<or> n = 2 * (- (2 ^ 23))" by linarith
    then obtain m where "n = 2 * m" by blast
    moreover have "u = 2" by (simp add: u_def e)
    ultimately have "(of_int n :: real) = of_int m * u" by simp
    then show ?thesis by blast
  qed
  then obtain m where m: "(of_int n :: real) = of_int m * u" by blast
  then have q: "(of_int n :: real) / u = of_int m" using upos by simp
  have big: "\<not> (2::real) powi 128 \<le> \<bar>of_int n\<bar>"
  proof -
    have "real k \<le> 2 ^ 24" using k24 by (metis of_nat_le_iff of_nat_numeral of_nat_power)
    then show ?thesis unfolding av by simp
  qed
  show ?thesis
    unfolding fl32_def Let_def ex u_def[symmetric] q round_even_of_int m[symmetric]
    using big by simp
qed

text \<open>
  A product that is rounded: 3 times the float32 number nearest to 0.1 (that is
  \<open>13421773 / 2 ^ 27\<close>) has a significand of 26 bits.
\<close>

lemma Pool_f32_rounds_product:
  "Pool_f32 [[[Some (13421773 / 134217728)]]] \<lparr>entries = [(0, 0, 3)], size0 = 1, size1 = 1\<rparr>
     = Inr [[[Some (40265320 / 134217728)]]]"
proof -
  have "fl32 (40265319 / 134217728) = Some (40265320 / 134217728)"
    by (simp add: fl32_def round_even_def exponent32_eq[where e = "- 2"])
  moreover have "fl32 (40265320 / 134217728) = Some (40265320 / 134217728)"
    by (simp add: fl32_def round_even_def exponent32_eq[where e = "- 2"])
  ultimately show ?thesis
    by (simp add: pool_f32_eval)
qed

text \<open>
  On exact numbers whose products and sums are float32 numbers, the float32 operators return
  the exact results.
\<close>

lemma axpby_vec_unrounded:
  assumes "\<forall>(s, t) \<in> set (zip p q). is_f32 (a * s) \<and> is_f32 (b * t) \<and> is_f32 (a * s + b * t)"
  shows "axpby_vec_f32 a (map Some p) b (map Some q) = map Some (axpby_vec a p b q)"
proof -
  have "map (\<lambda>(s, t). fadd (fmul (Some a) (Some s)) (fmul (Some b) (Some t))) (zip p q)
      = map (\<lambda>(s, t). Some (a * s + b * t)) (zip p q)"
    by (rule map_cong[OF refl]) (use assms in \<open>auto simp: fmul_def fadd_def is_f32_def\<close>)
  then show ?thesis
    by (simp add: axpby_vec_f32_def axpby_vec_def zip_map_map comp_def case_prod_unfold)
qed

lemma axpby_mat_unrounded:
  assumes "\<forall>(p, q) \<in> set (zip u v). \<forall>(s, t) \<in> set (zip p q).
      is_f32 (a * s) \<and> is_f32 (b * t) \<and> is_f32 (a * s + b * t)"
  shows "axpby_mat_f32 a (map (map Some) u) b (map (map Some) v)
    = map (map Some) (axpby_mat a u b v)"
proof -
  have "map (\<lambda>(p, q). axpby_vec_f32 a (map Some p) b (map Some q)) (zip u v)
      = map (\<lambda>(p, q). map Some (axpby_vec a p b q)) (zip u v)"
    by (rule map_cong[OF refl]) (use assms in \<open>auto simp: axpby_vec_unrounded\<close>)
  then show ?thesis
    by (simp add: axpby_mat_f32_def axpby_mat_def zip_map_map comp_def case_prod_unfold)
qed

lemma axpby_f32_unrounded:
  assumes "axpby_unrounded a x b y"
  shows "axpby_f32 a (of_exact x) b (of_exact y) = of_exact (axpby a x b y)"
proof -
  have "map (\<lambda>(u, v). axpby_mat_f32 a (map (map Some) u) b (map (map Some) v)) (zip x y)
      = map (\<lambda>(u, v). map (map Some) (axpby_mat a u b v)) (zip x y)"
  proof (rule map_cong[OF refl])
    fix uv assume uv: "uv \<in> set (zip x y)"
    obtain u v where [simp]: "uv = (u, v)" by (cases uv)
    from assms uv have "\<forall>(p, q) \<in> set (zip u v). \<forall>(s, t) \<in> set (zip p q).
        is_f32 (a * s) \<and> is_f32 (b * t) \<and> is_f32 (a * s + b * t)"
      unfolding axpby_unrounded_def by fastforce
    from axpby_mat_unrounded[OF this]
    show "(case uv of (u, v) \<Rightarrow> axpby_mat_f32 a (map (map Some) u) b (map (map Some) v))
        = (case uv of (u, v) \<Rightarrow> map (map Some) (axpby_mat a u b v))"
      by simp
  qed
  then show ?thesis
    by (simp add: axpby_f32_def axpby_def of_exact_def zip_map_map comp_def case_prod_unfold)
qed

lemma fold_unrounded:
  assumes prod: "\<forall>(r', c, w) \<in> set es. is_f32 (m ! c ! j * w)"
    and sums: "\<forall>k \<le> length es. is_f32 (running_sum (take k es) m r j)"
    and inb: "\<forall>(r', c, w) \<in> set es. c < length m \<and> j < length (m ! c)"
  shows "fold (\<lambda>(r', c, w) acc.
             if r' = r then fadd acc (fmul (map (map Some) m ! c ! j) (Some w)) else acc)
           es (Some 0)
    = Some (running_sum es m r j)"
  using assms
proof (induction es rule: rev_induct)
  case Nil
  then show ?case by (simp add: running_sum_def)
next
  case (snoc e es)
  obtain r' c w where e: "e = (r', c, w)" by (cases e)
  have p: "\<forall>(r', c, w) \<in> set es. is_f32 (m ! c ! j * w)" using snoc.prems(1) by auto
  have s: "\<forall>k \<le> length es. is_f32 (running_sum (take k es) m r j)"
  proof (intro allI impI)
    fix k assume k: "k \<le> length es"
    then have "k \<le> length (es @ [e])" by simp
    with snoc.prems(2) have "is_f32 (running_sum (take k (es @ [e])) m r j)" by blast
    with k show "is_f32 (running_sum (take k es) m r j)" by simp
  qed
  have i: "\<forall>(r', c, w) \<in> set es. c < length m \<and> j < length (m ! c)" using snoc.prems(3) by auto
  have IH: "fold (\<lambda>(r', c, w) acc.
             if r' = r then fadd acc (fmul (map (map Some) m ! c ! j) (Some w)) else acc)
           es (Some 0) = Some (running_sum es m r j)"
    by (rule snoc.IH[OF p s i])
  have cj: "c < length m" "j < length (m ! c)" using snoc.prems(3) e by auto
  then have v: "map (map Some) m ! c ! j = Some (m ! c ! j)" by simp
  have pe: "is_f32 (m ! c ! j * w)" using snoc.prems(1) e by auto
  have "is_f32 (running_sum (take (length (es @ [e])) (es @ [e])) m r j)"
    using snoc.prems(2) by blast
  then have se: "is_f32 (running_sum (es @ [e]) m r j)" by simp
  have split: "running_sum (es @ [e]) m r j
      = running_sum es m r j + (if r' = r then m ! c ! j * w else 0)"
    by (simp add: running_sum_def e)
  show ?case
  proof (cases "r' = r")
    case True
    have "fadd (Some (running_sum es m r j)) (fmul (Some (m ! c ! j)) (Some w))
        = Some (running_sum (es @ [e]) m r j)"
      using pe se True by (simp add: fadd_def fmul_def is_f32_def split)
    then show ?thesis by (simp add: IH e v True)
  next
    case False
    then show ?thesis by (simp add: IH e running_sum_def)
  qed
qed


lemma shape3_of_exact: "shape3 B V C x \<Longrightarrow> shape3 B V C (of_exact x)"
  by (auto simp: shape3_def shape2_def of_exact_def)

lemma of_exact_nth:
  assumes "shape3 B V C x" "i < B" "r < V" "j < C"
  shows "of_exact x ! i ! r ! j = Some (x ! i ! r ! j)"
proof -
  have lx: "length x = B" using assms(1) by (simp add: shape3_def)
  then have "x ! i \<in> set x" using assms(2) by simp
  then have m: "shape2 V C (x ! i)" using assms(1) by (simp add: shape3_def)
  then have lm: "length (x ! i) = V" by (simp add: shape2_def)
  then have "x ! i ! r \<in> set (x ! i)" using assms(3) by simp
  then have "length (x ! i ! r) = C" using m by (simp add: shape2_def)
  then show ?thesis using lx lm assms(2-4) by (simp add: of_exact_def)
qed

lemma shape3_eqI:
  assumes a: "shape3 B V C a" and b: "shape3 B V C b"
    and eq: "\<And>i r j. i < B \<Longrightarrow> r < V \<Longrightarrow> j < C \<Longrightarrow> a ! i ! r ! j = b ! i ! r ! j"
  shows "a = b"
proof (rule nth_equalityI)
  show "length a = length b" using a b by (simp add: shape3_def)
next
  fix i assume "i < length a"
  then have i: "i < B" using a by (simp add: shape3_def)
  then have ai: "shape2 V C (a ! i)" and bi: "shape2 V C (b ! i)"
    using a b by (auto simp: shape3_def)
  show "a ! i = b ! i"
  proof (rule nth_equalityI)
    show "length (a ! i) = length (b ! i)" using ai bi by (simp add: shape2_def)
  next
    fix r assume "r < length (a ! i)"
    then have r: "r < V" using ai by (simp add: shape2_def)
    then have la: "length (a ! i ! r) = C" and lb: "length (b ! i ! r) = C"
      using ai bi by (auto simp: shape2_def)
    show "a ! i ! r = b ! i ! r"
      by (rule nth_equalityI) (use la lb eq[OF i r] in auto)
  qed
qed

lemma Pool_f32_unrounded:
  assumes ok: "\<forall>(r, c, w) \<in> set (entries t). r < size0 t \<and> c < V"
    and x: "shape3 B V C x" and V: "0 < V" and u: "pool_unrounded t x"
  shows "Pool_f32 (of_exact x) t = of_exact_result (Pool x t)"
proof -
  let ?es = "entries t"
  from Pool_sum[OF ok x V] obtain out where P: "Pool x t = Inr out"
    and so: "shape3 B (size0 t) C out"
    and ov: "\<And>i r j. i < B \<Longrightarrow> r < size0 t \<Longrightarrow> j < C \<Longrightarrow>
      out ! i ! r ! j = (\<Sum>(r', c, w)\<leftarrow>?es. if r' = r then w * x ! i ! c ! j else 0)"
    by blast
  from Pool_f32_fold[OF ok shape3_of_exact[OF x] V] obtain fout where
    F: "Pool_f32 (of_exact x) t = Inr fout" and sf: "shape3 B (size0 t) C fout"
    and fv: "\<And>i r j. i < B \<Longrightarrow> r < size0 t \<Longrightarrow> j < C \<Longrightarrow>
      fout ! i ! r ! j = fold (\<lambda>(r', c, w) acc.
          if r' = r then fadd acc (fmul (of_exact x ! i ! c ! j) (Some w)) else acc) ?es (Some 0)"
    by blast
  have "fout = of_exact out"
  proof (rule shape3_eqI[OF sf shape3_of_exact[OF so]])
    fix i r j assume i: "i < B" and r: "r < size0 t" and j: "j < C"
    let ?m = "x ! i"
    have lx: "length x = B" using x by (simp add: shape3_def)
    have m: "?m \<in> set x" using i lx by simp
    then have sm: "shape2 V C ?m" using x by (simp add: shape3_def)
    then have lm: "length ?m = V" and rows: "\<And>c. c < V \<Longrightarrow> length (?m ! c) = C"
      by (auto simp: shape2_def)
    have w: "width ?m = C" using sm V by (cases ?m) (auto simp: shape2_def width_def)
    have xi: "of_exact x ! i = map (map Some) ?m" using i lx by (simp add: of_exact_def)
    from u m j w have prod: "\<forall>(r', c, w) \<in> set ?es. is_f32 (?m ! c ! j * w)"
      and sums: "\<forall>k \<le> length ?es. is_f32 (running_sum (take k ?es) ?m r j)"
      using r unfolding pool_unrounded_def by auto
    have inb: "\<forall>(r', c, w) \<in> set ?es. c < length ?m \<and> j < length (?m ! c)"
      using ok lm rows j by fastforce
    have "fout ! i ! r ! j = Some (running_sum ?es ?m r j)"
      unfolding fv[OF i r j] xi by (rule fold_unrounded[OF prod sums inb])
    also have "running_sum ?es ?m r j = out ! i ! r ! j"
      unfolding ov[OF i r j] running_sum_def
      by (rule arg_cong[where f = sum_list], rule map_cong[OF refl]) (auto simp: mult.commute)
    also have "Some (out ! i ! r ! j) = of_exact out ! i ! r ! j"
      by (rule of_exact_nth[OF so i r j, symmetric])
    finally show "fout ! i ! r ! j = of_exact out ! i ! r ! j" .
  qed
  then show ?thesis by (simp add: F P of_exact_result_def)
qed

lemma shape3_axpby:
  assumes "shape3 B V C x" "shape3 B V C y"
  shows "shape3 B V C (axpby a x b y)"
proof -
  have vec: "length (axpby_vec a p b q) = C" if "length p = C" "length q = C" for p q
    using that by (simp add: axpby_vec_def)
  have mat: "shape2 V C (axpby_mat a u b v')" if "shape2 V C u" "shape2 V C v'" for u v'
    using that unfolding shape2_def axpby_mat_def
    by (auto simp: vec dest!: set_zip_leftD set_zip_rightD elim!: in_set_zipE)
  show ?thesis
    using assms unfolding shape3_def axpby_def
    by (auto intro!: mat dest: set_zip_leftD set_zip_rightD)
qed

lemma all_le_Suc: "(\<forall>k \<le> Suc n. P k) \<longleftrightarrow> (\<forall>k \<le> n. P k) \<and> P (Suc n)"
  by (auto simp: le_Suc_eq)

lemma all_less_2: "(\<forall>r < 2. P r) \<longleftrightarrow> P 0 \<and> P (Suc (0::nat))"
proof -
  have "r < 2 \<longleftrightarrow> r = 0 \<or> r = Suc 0" for r :: nat by auto
  then show ?thesis by auto
qed

lemmas unrounded_eval = pool_unrounded_def axpby_unrounded_def width_def running_sum_def
  is_f32_def all_le_Suc all_less_2

text \<open>
  Claim C7 (amended). On float32 signals \<open>Pool (a*x + b*y) op\<close> is
  \<open>a * Pool x op + b * Pool y op\<close> whenever none of the products and sums computed on
  either side is changed by rounding: the two linear combinations (of the signals and of the
  pooled signals) and the three poolings are unrounded. And for every float32 signal, with
  every stored entry in range, the output at a row is the accumulation, in stored order from
  zero, of the rounded products \<open>signal[column] * weight\<close> over the entries with that
  row, each sum rounded.
\<close>

theorem Pool_f32_linear_when_unrounded:
  assumes x: "shape3 B V C x" and y: "shape3 B V C y" and fx: "shape3 B V C fx" and V: "0 < V"
    and ok: "\<forall>(r, c, w) \<in> set (entries t). r < size0 t \<and> c < V"
    and px: "Pool x t = Inr px" and py: "Pool y t = Inr py"
    and ci: "axpby_unrounded a x b y" and co: "axpby_unrounded a px b py"
    and ux: "pool_unrounded t x" and uy: "pool_unrounded t y"
    and uz: "pool_unrounded t (axpby a x b y)"
  shows "Pool_f32 (axpby_f32 a (of_exact x) b (of_exact y)) t
      = lift2 (\<lambda>p q. axpby_f32 a p b q) (Pool_f32 (of_exact x) t) (Pool_f32 (of_exact y) t) \<and>
    (\<exists>out. Pool_f32 fx t = Inr out \<and> shape3 B (size0 t) C out \<and>
      (\<forall>i < B. \<forall>r < size0 t. \<forall>j < C.
         out ! i ! r ! j
           = fold (\<lambda>(r', c, w) acc.
                     if r' = r then fadd acc (fmul (fx ! i ! c ! j) (Some w)) else acc)
               (entries t) (Some 0)))"
proof (rule conjI)
  have fpx: "Pool_f32 (of_exact x) t = Inr (of_exact px)"
    using Pool_f32_unrounded[OF ok x V ux] by (simp add: px of_exact_result_def)
  have fpy: "Pool_f32 (of_exact y) t = Inr (of_exact py)"
    using Pool_f32_unrounded[OF ok y V uy] by (simp add: py of_exact_result_def)
  have "Pool (axpby a x b y) t = Inr (axpby a px b py)"
    unfolding Pool_axpby[OF x y] px py by (simp add: lift2_def)
  then have fpz: "Pool_f32 (of_exact (axpby a x b y)) t = Inr (of_exact (axpby a px b py))"
    using Pool_f32_unrounded[OF ok shape3_axpby[OF x y] V uz] by (simp add: of_exact_result_def)
  have "Pool_f32 (axpby_f32 a (of_exact x) b (of_exact y)) t = Inr (of_exact (axpby a px b py))"
    unfolding axpby_f32_unrounded[OF ci] by (rule fpz)
  also have "\<dots> = Inr (axpby_f32 a (of_exact px) b (of_exact py))"
    unfolding axpby_f32_unrounded[OF co] ..
  also have "\<dots> = lift2 (\<lambda>p q. axpby_f32 a p b q) (Pool_f32 (of_exact x) t)
      (Pool_f32 (of_exact y) t)"
    unfolding fpx fpy by (simp add: lift2_def)
  finally show "Pool_f32 (axpby_f32 a (of_exact x) b (of_exact y)) t
      = lift2 (\<lambda>p q. axpby_f32 a p b q) (Pool_f32 (of_exact x) t) (Pool_f32 (of_exact y) t)" .
next
  show "\<exists>out. Pool_f32 fx t = Inr out \<and> shape3 B (size0 t) C out \<and>
      (\<forall>i < B. \<forall>r < size0 t. \<forall>j < C.
         out ! i ! r ! j
           = fold (\<lambda>(r', c, w) acc.
                     if r' = r then fadd acc (fmul (fx ! i ! c ! j) (Some w)) else acc)
               (entries t) (Some 0))"
    by (rule Pool_f32_fold[OF ok fx V])
qed

theorem Pool_f32_linear_when_unrounded_witness:
  "Pool_f32 (of_exact [[[1], [2]]]) pool_example_op = Inr [[[Some 4], [Some 6]]] \<and>
   Pool_f32 (of_exact [[[3], [4]]]) pool_example_op = Inr [[[Some 10], [Some 12]]] \<and>
   Pool_f32 (axpby_f32 2 (of_exact [[[1], [2]]]) 3 (of_exact [[[3], [4]]])) pool_example_op
     = Inr [[[Some 38], [Some 48]]] \<and>
   (\<exists>out. Pool_f32 [[[Some 1], [Some 2]]] pool_example_op = Inr out \<and>
      shape3 1 (size0 pool_example_op) 1 out)"
proof -
  let ?x = "[[[1::real], [2]]]" and ?y = "[[[3::real], [4]]]"
  let ?px = "[[[4::real], [6]]]" and ?py = "[[[10::real], [12]]]"
  have v: "fl32 0 = Some 0" "fl32 2 = Some 2" "fl32 4 = Some 4" "fl32 6 = Some 6"
    "fl32 8 = Some 8" "fl32 9 = Some 9" "fl32 10 = Some 10" "fl32 11 = Some 11"
    "fl32 12 = Some 12" "fl32 16 = Some 16" "fl32 22 = Some 22" "fl32 30 = Some 30"
    "fl32 36 = Some 36" "fl32 38 = Some 38" "fl32 48 = Some 48"
    by (simp_all add: fl32_eval)
  have s1: "shape3 1 2 1 ?x" and s2: "shape3 1 2 1 ?y"
    and s3: "shape3 1 2 1 [[[Some (1::real)], [Some 2]]]"
    by (simp_all add: shape3_def shape2_def)
  have V: "(0::nat) < 2" by simp
  have ok: "\<forall>(r, c, w) \<in> set (entries pool_example_op). r < size0 pool_example_op \<and> c < 2"
    by (simp add: pool_example_op_def)
  have p1: "Pool ?x pool_example_op = Inr ?px"
    and p2: "Pool ?y pool_example_op = Inr ?py"
    by (simp_all add: Pool_def Pool_instance_def pool_example_op_def index_select_def bind_def
        scatter_add_def width_def vadd_def replicate_2)
  have ci: "axpby_unrounded 2 ?x 3 ?y" and co: "axpby_unrounded 2 ?px 3 ?py"
    by (simp_all add: unrounded_eval v)
  have z: "axpby 2 ?x 3 ?y = [[[11], [16]]]"
    by (simp add: axpby_def axpby_mat_def axpby_vec_def)
  have ux: "pool_unrounded pool_example_op ?x" and uy: "pool_unrounded pool_example_op ?y"
    and uz: "pool_unrounded pool_example_op (axpby 2 ?x 3 ?y)"
    unfolding z by (simp_all add: unrounded_eval pool_example_op_def v)
  note inst = Pool_f32_linear_when_unrounded[OF s1 s2 s3 V ok p1 p2 ci co ux uy uz]
  have f1: "Pool_f32 (of_exact ?x) pool_example_op = Inr [[[Some 4], [Some 6]]]"
    and f2: "Pool_f32 (of_exact ?y) pool_example_op = Inr [[[Some 10], [Some 12]]]"
    by (simp_all add: pool_f32_eval pool_example_op_def of_exact_def v)
  have lin: "Pool_f32 (axpby_f32 2 (of_exact ?x) 3 (of_exact ?y)) pool_example_op
      = Inr [[[Some 38], [Some 48]]]"
    using inst[THEN conjunct1] unfolding f1 f2
    by (simp add: pool_f32_eval v)
  have ex: "\<exists>out. Pool_f32 [[[Some 1], [Some 2]]] pool_example_op = Inr out \<and>
      shape3 1 (size0 pool_example_op) 1 out"
  proof -
    from inst[THEN conjunct2] obtain out where
      "Pool_f32 [[[Some 1], [Some 2]]] pool_example_op = Inr out"
      "shape3 1 (size0 pool_example_op) 1 out"
      by (elim exE conjE)
    then show ?thesis by (intro exI conjI)
  qed
  show ?thesis
    by (intro conjI) (rule f1 f2 lin ex)+
qed

text \<open>
  With rounding the two sides differ. The operator adds two vertices; \<open>x\<close> holds
  \<open>2 ^ 24\<close> and 0, \<open>y\<close> holds 1 and 1, the scalars are 1. On the left
  \<open>2 ^ 24 + 1\<close> is rounded to \<open>2 ^ 24\<close> twice; on the right \<open>1 + 1\<close> is
  added first and \<open>2 ^ 24 + 2\<close> is a float32 number. A row with two addends gives the same
  sum in either order of accumulation.
\<close>

theorem Pool_f32_rounding_counterexample:
  "Pool_f32 (axpby_f32 1 [[[Some 16777216], [Some 0]]] 1 [[[Some 1], [Some 1]]]) pool_pair_op
     = Inr [[[Some 16777216]]] \<and>
   lift2 (\<lambda>p q. axpby_f32 1 p 1 q) (Pool_f32 [[[Some 16777216], [Some 0]]] pool_pair_op)
       (Pool_f32 [[[Some 1], [Some 1]]] pool_pair_op)
     = Inr [[[Some 16777218]]]"
proof -
  have v: "fl32 0 = Some 0" "fl32 1 = Some 1" "fl32 2 = Some 2" "fl32 16777216 = Some 16777216"
    "fl32 16777217 = Some 16777216" "fl32 16777218 = Some 16777218"
    by (simp_all add: fl32_eval)
  show ?thesis
    by (simp add: pool_f32_eval pool_pair_op_def v)
qed


subsection \<open>Vertex pruning\<close>

lemma mapM_Inl_D: "mapM f xs = Inl e \<Longrightarrow> \<exists>x \<in> set xs. f x = Inl e"
  by (induction xs) (auto split: sum.splits)

lemma mapM_Inr_D: "mapM f xs = Inr ys \<Longrightarrow> x \<in> set xs \<Longrightarrow> \<exists>y. f x = Inr y"
  by (induction xs arbitrary: ys) (auto split: sum.splits)

lemma norm_index_error: "norm_index n i = Inl e \<Longrightarrow> e = IndexError"
  by (auto simp: norm_index_def split: if_splits)

lemma mask_clear_out_of_range:
  assumes "i \<in> set idxs" "i < - int (length msk) \<or> int (length msk) \<le> i"
  shows "mask_clear msk idxs = Inl IndexError"
proof -
  have bad: "norm_index (length msk) i = Inl IndexError"
    using assms(2) by (auto simp: norm_index_def)
  have "mapM (norm_index (length msk)) idxs = Inl IndexError"
  proof (cases "mapM (norm_index (length msk)) idxs")
    case (Inl e)
    then obtain x where "norm_index (length msk) x = Inl e"
      using mapM_Inl_D by fastforce
    then show ?thesis using Inl norm_index_error by simp
  next
    case (Inr js)
    from mapM_Inr_D[OF this assms(1)] bad show ?thesis by simp
  qed
  then show ?thesis by (simp add: mask_clear_def bind_def)
qed

lemma select_mask_all: "select_mask xs (replicate (length xs) True) = xs"
proof -
  have "zip xs (replicate (length xs) True) = map (\<lambda>x. (x, True)) xs"
    by (induction xs) auto
  then show ?thesis by (simp add: select_mask_def comp_def)
qed

lemma fold_assign_length [simp]:
  "length (fold (\<lambda>(i, v) a. a[i := v]) ps a) = length a"
  by (induction ps arbitrary: a) auto

lemma fold_assign_other:
  "i \<notin> fst ` set ps \<Longrightarrow> fold (\<lambda>(i, v) a. a[i := v]) ps a ! i = a ! i"
  by (induction ps arbitrary: a) (auto simp: nth_list_update)

lemma fold_assign_nth:
  "distinct ks \<Longrightarrow> length vals = length ks \<Longrightarrow> j < length ks \<Longrightarrow> ks ! j < length a \<Longrightarrow>
   fold (\<lambda>(i, v) a. a[i := v]) (zip ks vals) a ! (ks ! j) = vals ! j"
proof (induction ks arbitrary: vals a j)
  case Nil
  then show ?case by simp
next
  case (Cons k ks)
  then obtain v vs where vals: "vals = v # vs" by (cases vals) auto
  show ?case
  proof (cases j)
    case 0
    have "k \<notin> fst ` set (zip ks vs)"
      using Cons.prems(1) by (auto dest: set_zip_leftD)
    then show ?thesis
      using Cons.prems 0 by (simp add: vals fold_assign_other)
  next
    case (Suc j')
    then show ?thesis
      using Cons.prems Cons.IH[of vs j' "a[k := v]"] by (simp add: vals)
  qed
qed

lemma assign_identity:
  "assign_at (map junk [0..<n]) [0..<n] (map g [0..<n]) = Inr (map g [0..<n])"
proof -
  let ?r = "fold (\<lambda>(i, v) a. a[i := v]) (zip [0..<n] (map g [0..<n])) (map junk [0..<n])"
  have "?r = map g [0..<n]"
  proof (rule nth_equalityI)
    show "length ?r = length (map g [0..<n])" by simp
  next
    fix i assume "i < length ?r"
    then have i: "i < n" by simp
    from fold_assign_nth[of "[0..<n]" "map g [0..<n]" i "map junk [0..<n]"] i
    show "?r ! i = map g [0..<n] ! i" by simp
  qed
  then show ?thesis by (simp add: assign_at_def)
qed

lemma array_max_Max:
  "array_max a = Inr (Max (set (concat a)))" if "concat a \<noteq> []"
proof (cases "concat a")
  case Nil
  then show ?thesis using that by simp
next
  case (Cons e es)
  have "fold max es e = Max (set (e # es))" by (rule Max.set_eq_fold[symmetric])
  then show ?thesis by (simp add: array_max_def Cons)
qed

lemma mapM_take_indices_ok:
  "\<forall>face \<in> set fs. \<forall>e \<in> set face. e < length arr \<Longrightarrow>
   mapM (take_indices arr) fs = Inr (map (map (\<lambda>e. arr ! e)) fs)"
  by (induction fs) (auto simp: take_indices_def)

lemma remove_nothing:
  assumes valid: "\<forall>face \<in> set f. \<forall>e \<in> set face. e < length v"
    and top: "\<exists>face \<in> set f. \<exists>e \<in> set face. Suc e = length v"
  shows "remove_mesh_vertices junk v f [] = Inr (v, map (map int) f, replicate (length v) True)"
proof -
  let ?V = "length v"
  from top obtain e where e: "e \<in> set (concat f)" "Suc e = ?V" by auto
  then have ne: "concat f \<noteq> []" by (metis empty_iff empty_set)
  have "Max (set (concat f)) = e"
  proof (rule Max_eqI)
    show "finite (set (concat f))" by simp
    show "e \<in> set (concat f)" by (rule e)
    fix y assume "y \<in> set (concat f)"
    then have "y < ?V" using valid by auto
    then show "y \<le> e" using e(2) by simp
  qed
  then have am: "array_max f = Inr e" using array_max_Max[OF ne] by simp
  have vo: "filter (\<lambda>i. replicate ?V True ! i) [0..<?V] = [0..<?V]"
    by (rule filter_True) simp
  have cnt: "filter id (replicate ?V True) = replicate ?V True"
    by (rule filter_True) simp
  have faces: "mapM (take_indices (map int [0..<?V])) f = Inr (map (map int) f)"
  proof -
    have "map (map (\<lambda>e. map int [0..<?V] ! e)) f = map (map int) f"
      using valid by (auto intro!: map_cong)
    then show ?thesis
      using mapM_take_indices_ok[of f "map int [0..<?V]"] valid by simp
  qed
  have m0: "mask_clear (replicate n True) [] = Inr (replicate n True)" for n
    by (simp add: mask_clear_def bind_def)
  have e1: "e + 1 = ?V" using e(2) by simp
  have rf: "sort (fromkeys (concat (map (argwhere_rows f) []))) = []"
    by (simp add: fromkeys_def)
  have m1: "mask_clear (replicate (length f) True) (map int []) = Inr (replicate (length f) True)"
    by (simp add: mask_clear_def bind_def)
  have asg: "assign_at (map junk [0..<e + 1]) [0..<?V] (map int [0..<?V]) = Inr (map int [0..<?V])"
    unfolding e1 by (rule assign_identity)
  show ?thesis
    unfolding remove_mesh_vertices_def m0 rf m1 bind_def sum.case Let_def select_mask_all am
      length_replicate vo cnt asg faces ..
qed

lemma remove_out_of_range:
  assumes "i \<in> set rm" "i < - int (length v) \<or> int (length v) \<le> i"
  shows "remove_mesh_vertices junk v f rm = Inl IndexError"
  using mask_clear_out_of_range[of i rm "replicate (length v) True"] assms
  by (simp add: remove_mesh_vertices_def bind_def)

text \<open>
  Claim C8, at failing inputs. The index \<open>-1\<close> lies outside the bounds \<open>0 .. 2\<close> of
  a three-vertex mesh, yet pruning returns: the mask clears the last vertex, the face that
  names it is kept, and that face reads an unassigned cell of the remap array. On a strip of
  three triangles the index 0 removes vertex 0 and its face; the index \<open>-5\<close> clears the same
  vertex in the mask and keeps the face, remapped through an unassigned cell. With an empty
  removal list, on a mesh whose last vertices are in no face, pruning raises IndexError.
\<close>

theorem remove_mesh_vertices_negative_index_keeps_face:
  "remove_mesh_vertices junk [[0, 0, 0], [1, 0, 0], [0, 1, 0 :: real]] [[0, 1, 2]] [- 1]
     = Inr ([[0, 0, 0], [1, 0, 0]], [[0, 1, junk 2]], [True, True, False]) \<and>
   remove_mesh_vertices junk [[0, 0, 0], [1, 0, 0], [0, 1, 0], [1, 1, 0], [2, 1, 0 :: real]]
       [[0, 1, 2], [1, 2, 3], [2, 3, 4]] [0]
     = Inr ([[1, 0, 0], [0, 1, 0], [1, 1, 0], [2, 1, 0]], [[0, 1, 2], [1, 2, 3]],
            [False, True, True, True, True]) \<and>
   remove_mesh_vertices junk [[0, 0, 0], [1, 0, 0], [0, 1, 0], [1, 1, 0], [2, 1, 0 :: real]]
       [[0, 1, 2], [1, 2, 3], [2, 3, 4]] [- 5]
     = Inr ([[1, 0, 0], [0, 1, 0], [1, 1, 0], [2, 1, 0]], [[junk 0, 0, 1], [0, 1, 2], [1, 2, 3]],
            [False, True, True, True, True]) \<and>
   remove_mesh_vertices junk [[0, 0, 0], [1, 0, 0], [0, 1, 0], [1, 1, 0], [2, 1, 0 :: real]]
       [[0, 1, 2]] []
     = Inl IndexError"
  by code_simp

lemma fold_clear_length [simp]: "length (fold (\<lambda>j m. m[j := False]) js msk) = length msk"
  by (induction js arbitrary: msk) auto

lemma clear_nth: "k < length m \<Longrightarrow> m[a := False] ! k \<longleftrightarrow> m ! k \<and> a \<noteq> k"
  by (cases "a = k") auto

lemma fold_clear_nth:
  "k < length msk \<Longrightarrow> fold (\<lambda>j m. m[j := False]) js msk ! k \<longleftrightarrow> msk ! k \<and> k \<notin> set js"
proof (induction js arbitrary: msk)
  case Nil
  then show ?case by simp
next
  case (Cons a js)
  have "fold (\<lambda>j m. m[j := False]) js (msk[a := False]) ! k
      \<longleftrightarrow> msk[a := False] ! k \<and> k \<notin> set js"
    using Cons.prems by (intro Cons.IH) simp
  then show ?case using Cons.prems by (auto simp: clear_nth)
qed

lemma mask_clear_in_range:
  assumes "\<forall>i \<in> set idxs. 0 \<le> i \<and> i < int (length msk)"
  shows "mask_clear msk idxs = Inr (fold (\<lambda>j m. m[j := False]) (map nat idxs) msk)"
proof -
  have "mapM (norm_index (length msk)) idxs = Inr (map nat idxs)"
    by (rule mapM_map_Inr) (use assms in \<open>auto simp: norm_index_def\<close>)
  then show ?thesis by (simp add: mask_clear_def bind_def)
qed

lemma set_argwhere_rows:
  "set (argwhere_rows f v) = {i. i < length f \<and> (\<exists>e \<in> set (f ! i). int e = v)}"
proof (intro set_eqI iffI)
  fix i assume "i \<in> set (argwhere_rows f v)"
  then obtain p where p: "p \<in> set (enumerate 0 f)"
      and i: "i \<in> set (map (\<lambda>_. fst p) (filter (\<lambda>e. int e = v) (snd p)))"
    by (auto simp: argwhere_rows_def)
  from p have "fst p < length f" "snd p = f ! fst p" by (auto simp: in_set_enumerate_eq)
  with i show "i \<in> {i. i < length f \<and> (\<exists>e \<in> set (f ! i). int e = v)}" by auto
next
  fix i assume "i \<in> {i. i < length f \<and> (\<exists>e \<in> set (f ! i). int e = v)}"
  then obtain e where i: "i < length f" "e \<in> set (f ! i)" "int e = v" by auto
  then have "(i, f ! i) \<in> set (enumerate 0 f)" by (simp add: in_set_enumerate_eq)
  moreover have "i \<in> set (map (\<lambda>_. i) (filter (\<lambda>e. int e = v) (f ! i)))"
    using i by auto
  ultimately show "i \<in> set (argwhere_rows f v)"
    unfolding argwhere_rows_def by (simp only: set_concat set_map) force
qed

lemma set_select_mask:
  "length xs = length msk \<Longrightarrow> set (select_mask xs msk) = {xs ! i | i. i < length xs \<and> msk ! i}"
  by (auto simp: select_mask_def set_zip image_iff) force+

lemma length_select_mask:
  "length xs = length msk \<Longrightarrow> length (select_mask xs msk) = length (filter id msk)"
  by (induction xs msk rule: list_induct2) (auto simp: select_mask_def)

lemma length_filter_nth:
  "length (filter (\<lambda>i. msk ! i) [0..<length msk]) = length (filter id msk)"
proof -
  have "filter id msk = filter id (map (\<lambda>i. msk ! i) [0..<length msk])"
    by (simp add: map_nth)
  also have "\<dots> = map (\<lambda>i. msk ! i) (filter (\<lambda>i. msk ! i) [0..<length msk])"
    by (simp add: filter_map comp_def)
  finally show ?thesis by simp
qed

lemma mapM_take_indices_Inr:
  "mapM (take_indices arr) fs = Inr r \<Longrightarrow> r = map (map (\<lambda>e. arr ! e)) fs"
  by (induction fs arbitrary: r) (auto simp: take_indices_def split: sum.splits if_splits)

lemma count_kept:
  assumes "\<forall>i \<in> set rm. 0 \<le> i \<and> i < int n" "distinct rm"
  shows "length (filter id (fold (\<lambda>j m. m[j := False]) (map nat rm) (replicate n True)))
    = n - length rm"
proof -
  let ?keep = "fold (\<lambda>j m. m[j := False]) (map nat rm) (replicate n True)"
  have "length (filter id ?keep) = card {k. k < n \<and> ?keep ! k}"
    by (simp add: length_filter_conv_card)
  also have "{k. k < n \<and> ?keep ! k} = {0..<n} - nat ` set rm"
    by (auto simp: fold_clear_nth)
  also have "card \<dots> = n - card (nat ` set rm)"
  proof -
    have "nat ` set rm \<subseteq> {0..<n}" using assms(1) by auto
    then show ?thesis by (simp add: card_Diff_subset finite_subset)
  qed
  also have "card (nat ` set rm) = length rm"
  proof -
    have "inj_on nat (set rm)"
    proof (rule inj_onI)
      fix x y assume "x \<in> set rm" "y \<in> set rm" "nat x = nat y"
      moreover from this assms(1) have "0 \<le> x" "0 \<le> y" by auto
      ultimately show "x = y" by simp
    qed
    then show ?thesis using assms(2) by (simp add: card_image distinct_card)
  qed
  finally show ?thesis .
qed


lemma bind_eq_Inr: "bind r f = Inr y \<longleftrightarrow> (\<exists>x. r = Inr x \<and> f x = Inr y)"
  by (cases r) (simp_all add: bind_def)

text \<open>
  Whenever pruning returns, on a mesh whose faces name existing vertices and for a
  duplicate-free removal list of indices in \<open>0 .. V - 1\<close>, the result is sound: the
  vertex count drops by the length of the list, the mask marks exactly the removed vertices,
  and every face entry is an index into the new vertex array.
\<close>

lemma remove_mesh_vertices_sound:
  assumes res: "remove_mesh_vertices junk v f rm = Inr (nv, nf, keep)"
    and rng: "\<forall>i \<in> set rm. 0 \<le> i \<and> i < int (length v)"
    and dist: "distinct rm"
    and valid: "\<forall>face \<in> set f. \<forall>e \<in> set face. e < length v"
  shows "length nv = length v - length rm \<and>
    length keep = length v \<and> (\<forall>k < length v. keep ! k \<longleftrightarrow> int k \<notin> set rm) \<and>
    nv = select_mask v keep \<and>
    (\<forall>face \<in> set nf. \<forall>e \<in> set face. 0 \<le> e \<and> e < int (length nv))"
proof -
  let ?V = "length v" and ?F = "length f"
  define keep0 where "keep0 = fold (\<lambda>j m. m[j := False]) (map nat rm) (replicate ?V True)"
  define rf where "rf = sort (fromkeys (concat (map (argwhere_rows f) rm)))"
  define keepf where "keepf = fold (\<lambda>j m. m[j := False]) rf (replicate ?F True)"
  define uf where "uf = select_mask f keepf"
  define val_old where "val_old = filter (\<lambda>i. keep0 ! i) [0..<length keep0]"
  define val_new where "val_new = map int [0..<length (filter id keep0)]"
  have k0: "mask_clear (replicate ?V True) rm = Inr keep0"
    unfolding keep0_def by (rule mask_clear_in_range) (use rng in simp)
  have set_rf: "set rf = {i. i < ?F \<and> (\<exists>e \<in> set (f ! i). int e \<in> set rm)}"
    by (auto simp: rf_def fromkeys_def set_argwhere_rows)
  have kf: "mask_clear (replicate ?F True) (map int rf) = Inr keepf"
  proof -
    have "mask_clear (replicate ?F True) (map int rf)
        = Inr (fold (\<lambda>j m. m[j := False]) (map nat (map int rf)) (replicate ?F True))"
      by (rule mask_clear_in_range) (use set_rf in auto)
    then show ?thesis by (simp add: keepf_def comp_def)
  qed
  note r0 = res[unfolded remove_mesh_vertices_def bind_eq_Inr Let_def rf_def[symmetric]]
  from r0 obtain kv kf' m arr nf' where
    a1: "mask_clear (replicate ?V True) rm = Inr kv"
    and a2: "mask_clear (replicate ?F True) (map int rf) = Inr kf'"
    and a3: "array_max (select_mask f kf') = Inr m"
    and a4: "assign_at (map junk [0..<m + 1]) (filter (\<lambda>i. kv ! i) [0..<length kv])
        (map int [0..<length (filter id kv)]) = Inr arr"
    and a5: "mapM (take_indices arr) (select_mask f kf') = Inr nf'"
    and a6: "Inr (select_mask v kv, nf', kv) = (Inr (nv, nf, keep) :: error + _)"
    by (elim exE conjE)
  from a1 k0 have kv: "kv = keep0" by simp
  from a2 kf have kf': "kf' = keepf" by simp
  have am: "array_max uf = Inr m" using a3 by (simp add: uf_def kf')
  have asg: "assign_at (map junk [0..<m + 1]) val_old val_new = Inr arr"
    using a4 by (simp add: val_old_def val_new_def kv)
  have sel: "mapM (take_indices arr) uf = Inr nf" using a5 a6 by (simp add: uf_def kf')
  have nv: "nv = select_mask v keep0" and keep: "keep = keep0" using a6 by (auto simp: kv)
  have len0: "length keep0 = ?V" by (simp add: keep0_def)
  have nth0: "keep0 ! k \<longleftrightarrow> int k \<notin> set rm" if "k < ?V" for k
  proof -
    have "k \<in> nat ` set rm \<longleftrightarrow> int k \<in> set rm"
    proof
      assume "k \<in> nat ` set rm"
      then obtain i where "i \<in> set rm" "k = nat i" by auto
      with rng show "int k \<in> set rm" by auto
    next
      assume "int k \<in> set rm"
      then have "nat (int k) \<in> nat ` set rm" by (rule imageI)
      then show "k \<in> nat ` set rm" by simp
    qed
    then show ?thesis using that by (simp add: keep0_def fold_clear_nth)
  qed
  have cnt: "length (filter id keep0) = ?V - length rm"
    unfolding keep0_def by (rule count_kept[OF rng dist])
  have lnv: "length nv = ?V - length rm"
    using cnt by (simp add: nv length_select_mask len0)
  have lvo: "length val_old = length (filter id keep0)"
    unfolding val_old_def by (rule length_filter_nth)
  have arr: "arr = fold (\<lambda>(i, v) a. a[i := v]) (zip val_old val_new) (map junk [0..<m + 1])"
    and inb: "\<forall>i \<in> set val_old. i < m + 1"
    using asg by (auto simp: assign_at_def split: if_splits)
  have nf: "nf = map (map (\<lambda>e. arr ! e)) uf"
    by (rule mapM_take_indices_Inr[OF sel])
  have entry: "0 \<le> arr ! e \<and> arr ! e < int (length nv)"
    if face: "face \<in> set uf" and e: "e \<in> set face" for face e
  proof -
    have lkf: "length keepf = ?F" by (simp add: keepf_def)
    from face obtain i where i: "i < ?F" "keepf ! i" "face = f ! i"
      unfolding uf_def using set_select_mask[of f keepf] lkf by auto
    from i(1,2) have "i \<notin> set rf" by (simp add: keepf_def fold_clear_nth)
    with i e have notrm: "int e \<notin> set rm" by (auto simp: set_rf)
    from i e valid have eV: "e < ?V" by auto
    with notrm have "keep0 ! e" by (simp add: nth0)
    with eV have "e \<in> set val_old" by (simp add: val_old_def len0)
    then obtain j where j: "j < length val_old" "val_old ! j = e"
      by (auto simp: in_set_conv_nth)
    have d: "distinct val_old" by (simp add: val_old_def)
    have lvn: "length val_new = length val_old" by (simp add: val_new_def lvo)
    have "e < m + 1" using inb \<open>e \<in> set val_old\<close> by auto
    then have "arr ! (val_old ! j) = val_new ! j"
      unfolding arr using j by (intro fold_assign_nth[OF d lvn]) simp_all
    moreover have "val_new ! j = int j" using j lvo by (simp add: val_new_def)
    ultimately have "arr ! e = int j" using j by simp
    then show ?thesis using j lvo cnt lnv by simp
  qed
  have "\<forall>face \<in> set nf. \<forall>e \<in> set face. 0 \<le> e \<and> e < int (length nv)"
    unfolding nf using entry by auto
  then show ?thesis
    using lnv len0 nth0 nv keep by simp
qed

text \<open>
  Claim C5, at failing inputs. Removing vertex 0 of a single triangle leaves no face, and the
  maximum of the empty face array raises ValueError; removing vertex 3 of a strip of three
  triangles leaves vertex 4 without a face, and the remap array is too short for it.
\<close>

theorem remove_mesh_vertices_fails_on_valid_input:
  "remove_mesh_vertices junk [[0, 0, 0], [1, 0, 0], [0, 1, 0 :: real]] [[0, 1, 2]] [0]
     = Inl ValueError \<and>
   remove_mesh_vertices junk [[0, 0, 0], [1, 0, 0], [0, 1, 0], [1, 1, 0], [2, 1, 0 :: real]]
       [[0, 1, 2], [1, 2, 3], [2, 3, 4]] [3]
     = Inl IndexError"
  by code_simp

subsection \<open>Reparameterization\<close>

lemma mapM_pairs_Inr: "mapM (\<lambda>(a, b). Inr (f a b)) ps = Inr (map (\<lambda>(a, b). f a b) ps)"
  by (induction ps) auto

lemma broadcast_same_length:
  "length x = length y \<Longrightarrow> broadcast f x y = mapM (\<lambda>(u, v). f u v) (zip x y)"
  by (simp add: broadcast_def)

lemma row_add:
  "length u = length v \<Longrightarrow> broadcast (\<lambda>a b. Inr (a + b)) u v = Inr (map2 (+) u (v :: vec))"
  by (simp add: broadcast_same_length mapM_pairs_Inr)

lemma length_randn_like [simp]: "length (randn_like noise t) = length t"
  by (simp add: randn_like_def)

lemma tensor_add_same_shape:
  assumes "shape2 B W x" "shape2 B W y"
  shows "tensor_add x y = Inr (map2 (map2 (+)) x y)"
proof -
  have "mapM (\<lambda>(u, v). broadcast (\<lambda>a b. Inr (a + b)) u v) (zip x y)
      = Inr (map (\<lambda>(u, v). map2 (+) u v) (zip x y))"
  proof (rule mapM_map_Inr, clarify)
    fix u v assume "(u, v) \<in> set (zip x y)"
    then have "u \<in> set x" "v \<in> set y" by (auto dest: set_zip_leftD set_zip_rightD)
    then have "length u = length v" using assms by (simp add: shape2_def)
    then show "broadcast (\<lambda>a b. Inr (a + b)) u v = Inr (map2 (+) u v)" by (rule row_add)
  qed
  moreover have "length x = length y" using assms by (simp add: shape2_def)
  ultimately show ?thesis by (simp only: tensor_add_def broadcast_same_length)
qed

lemma randn_like_nth:
  "b < length t \<Longrightarrow> randn_like noise t ! b = map (noise b) [0..<length (t ! b)]"
  by (simp add: randn_like_def nth_enumerate_eq)

lemma reparameterize_isolated_value:
  assumes flags: "age \<and> old = False \<and> version \<noteq> 23 / 10"
    and mu: "shape2 B L mu" and lv: "shape2 B (L - 1) logvar" and L: "0 < L"
  shows "reparameterize noise mu logvar age old version
    = Inr (map (\<lambda>b. map (\<lambda>j. mu ! b ! j + noise b j * exp (0.5 * logvar ! b ! j)) [0..<L - 1]
                    @ [last (mu ! b)]) [0..<B])"
proof -
  let ?std = "map (map (\<lambda>v. exp (0.5 * v))) logvar"
  let ?E = "map2 (map2 (*)) (randn_like noise ?std) ?std"
  have lmu: "length mu = B" and llv: "length logvar = B"
    and rmu: "\<And>b. b < B \<Longrightarrow> length (mu ! b) = L"
    and rlv: "\<And>b. b < B \<Longrightarrow> length (logvar ! b) = L - 1"
    using mu lv by (auto simp: shape2_def)
  have E: "?E = map (\<lambda>b. map (\<lambda>j. noise b j * exp (0.5 * logvar ! b ! j)) [0..<L - 1]) [0..<B]"
  proof (rule nth_equalityI)
    show "length ?E = length (map (\<lambda>b. map (\<lambda>j. noise b j * exp (0.5 * logvar ! b ! j)) [0..<L - 1]) [0..<B])"
      by (simp add: llv)
  next
    fix b assume "b < length ?E"
    then have b: "b < B" by (simp add: llv)
    then have "?E ! b = map2 (*) (map (noise b) [0..<L - 1]) (map (\<lambda>v. exp (0.5 * v)) (logvar ! b))"
      by (simp add: randn_like_nth llv rlv)
    also have "\<dots> = map (\<lambda>j. noise b j * exp (0.5 * logvar ! b ! j)) [0..<L - 1]"
      using rlv[OF b] by (auto intro!: nth_equalityI)
    finally show "?E ! b = map (\<lambda>b. map (\<lambda>j. noise b j * exp (0.5 * logvar ! b ! j)) [0..<L - 1]) [0..<B] ! b"
      using b by simp
  qed
  have shE: "shape2 B (L - 1) ?E" unfolding E by (simp add: shape2_def)
  have shF: "shape2 B (L - 1) (drop_last_col mu)"
    using mu by (auto simp: shape2_def drop_last_col_def)
  have nonempty: "\<not> (\<exists>r \<in> set mu. r = [])"
    using mu L by (auto simp: shape2_def)
  have add: "tensor_add (drop_last_col mu) ?E = Inr (map2 (map2 (+)) (drop_last_col mu) ?E)"
    by (rule tensor_add_same_shape[OF shF shE])
  have cat: "cat1 (map2 (map2 (+)) (drop_last_col mu) ?E) (map (\<lambda>a. [a]) (map last mu))
      = Inr (map2 (@) (map2 (map2 (+)) (drop_last_col mu) ?E) (map (\<lambda>a. [a]) (map last mu)))"
    using shE by (simp add: cat1_def drop_last_col_def shape2_def lmu)
  have val: "map2 (@) (map2 (map2 (+)) (drop_last_col mu) ?E) (map (\<lambda>a. [a]) (map last mu))
      = map (\<lambda>b. map (\<lambda>j. mu ! b ! j + noise b j * exp (0.5 * logvar ! b ! j)) [0..<L - 1]
                    @ [last (mu ! b)]) [0..<B]"
  proof (rule nth_equalityI)
    show "length (map2 (@) (map2 (map2 (+)) (drop_last_col mu) ?E) (map (\<lambda>a. [a]) (map last mu)))
      = length (map (\<lambda>b. map (\<lambda>j. mu ! b ! j + noise b j * exp (0.5 * logvar ! b ! j)) [0..<L - 1]
                    @ [last (mu ! b)]) [0..<B])"
      using shE by (simp add: drop_last_col_def shape2_def lmu)
  next
    fix b assume "b < length (map2 (@) (map2 (map2 (+)) (drop_last_col mu) ?E) (map (\<lambda>a. [a]) (map last mu)))"
    then have b: "b < B" by (simp add: lmu)
    have Eb: "?E ! b = map (\<lambda>j. noise b j * exp (0.5 * logvar ! b ! j)) [0..<L - 1]"
      unfolding E using b by simp
    have lE: "length ?E = B" using shE by (simp add: shape2_def)
    have "map2 (+) (butlast (mu ! b)) (?E ! b)
        = map (\<lambda>j. mu ! b ! j + noise b j * exp (0.5 * logvar ! b ! j)) [0..<L - 1]"
      unfolding Eb using rmu[OF b] by (auto intro!: nth_equalityI simp: nth_butlast)
    then show "map2 (@) (map2 (map2 (+)) (drop_last_col mu) ?E) (map (\<lambda>a. [a]) (map last mu)) ! b
      = map (\<lambda>b. map (\<lambda>j. mu ! b ! j + noise b j * exp (0.5 * logvar ! b ! j)) [0..<L - 1]
                    @ [last (mu ! b)]) [0..<B] ! b"
      using b lE by (simp add: drop_last_col_def lmu)
  qed
  have c: "(age \<and> old = False \<and> version \<noteq> 23 / 10) = True" using flags by simp
  have lc: "last_col mu = Inr (map last mu)" using nonempty by (simp add: last_col_def)
  show ?thesis
    unfolding reparameterize_def Let_def c if_True lc bind_def sum.case add cat val ..
qed

text \<open>
  In the other branch (disentanglement off, or \<open>old_experiment\<close> on, or version 2.3), for
  a mean and a log-variance of one width, the sample is added to every entry, the trailing one
  included.
\<close>

lemma reparameterize_whole_vector:
  assumes flags: "\<not> (age \<and> old = False \<and> version \<noteq> 23 / 10)"
    and mu: "shape2 B L mu" and lv: "shape2 B L logvar"
  shows "reparameterize noise mu logvar age old version
    = Inr (map (\<lambda>b. map (\<lambda>j. mu ! b ! j + noise b j * exp (0.5 * logvar ! b ! j)) [0..<L]) [0..<B])"
proof -
  let ?std = "map (map (\<lambda>v. exp (0.5 * v))) logvar"
  let ?E = "map2 (map2 (*)) (randn_like noise ?std) ?std"
  have lmu: "length mu = B" and llv: "length logvar = B"
    and rmu: "\<And>b. b < B \<Longrightarrow> length (mu ! b) = L"
    and rlv: "\<And>b. b < B \<Longrightarrow> length (logvar ! b) = L"
    using mu lv by (auto simp: shape2_def)
  have E: "?E = map (\<lambda>b. map (\<lambda>j. noise b j * exp (0.5 * logvar ! b ! j)) [0..<L]) [0..<B]"
  proof (rule nth_equalityI)
    show "length ?E = length (map (\<lambda>b. map (\<lambda>j. noise b j * exp (0.5 * logvar ! b ! j)) [0..<L]) [0..<B])"
      by (simp add: llv)
  next
    fix b assume "b < length ?E"
    then have b: "b < B" by (simp add: llv)
    then have "?E ! b = map2 (*) (map (noise b) [0..<L]) (map (\<lambda>v. exp (0.5 * v)) (logvar ! b))"
      by (simp add: randn_like_nth llv rlv)
    also have "\<dots> = map (\<lambda>j. noise b j * exp (0.5 * logvar ! b ! j)) [0..<L]"
      using rlv[OF b] by (auto intro!: nth_equalityI)
    finally show "?E ! b = map (\<lambda>b. map (\<lambda>j. noise b j * exp (0.5 * logvar ! b ! j)) [0..<L]) [0..<B] ! b"
      using b by simp
  qed
  have shE: "shape2 B L ?E" unfolding E by (simp add: shape2_def)
  have add: "tensor_add mu ?E = Inr (map2 (map2 (+)) mu ?E)"
    by (rule tensor_add_same_shape[OF mu shE])
  have val: "map2 (map2 (+)) mu ?E
      = map (\<lambda>b. map (\<lambda>j. mu ! b ! j + noise b j * exp (0.5 * logvar ! b ! j)) [0..<L]) [0..<B]"
  proof (rule nth_equalityI)
    show "length (map2 (map2 (+)) mu ?E)
      = length (map (\<lambda>b. map (\<lambda>j. mu ! b ! j + noise b j * exp (0.5 * logvar ! b ! j)) [0..<L]) [0..<B])"
      using shE by (simp add: shape2_def lmu)
  next
    fix b assume "b < length (map2 (map2 (+)) mu ?E)"
    then have b: "b < B" by (simp add: lmu)
    have Eb: "?E ! b = map (\<lambda>j. noise b j * exp (0.5 * logvar ! b ! j)) [0..<L]"
      unfolding E using b by simp
    have lE: "length ?E = B" using shE by (simp add: shape2_def)
    have "map2 (+) (mu ! b) (?E ! b)
        = map (\<lambda>j. mu ! b ! j + noise b j * exp (0.5 * logvar ! b ! j)) [0..<L]"
      unfolding Eb using rmu[OF b] by (auto intro!: nth_equalityI)
    then show "map2 (map2 (+)) mu ?E ! b
      = map (\<lambda>b. map (\<lambda>j. mu ! b ! j + noise b j * exp (0.5 * logvar ! b ! j)) [0..<L]) [0..<B] ! b"
      using b lE by (simp add: lmu)
  qed
  have c: "(age \<and> old = False \<and> version \<noteq> 23 / 10) = False" using flags by simp
  show ?thesis
    unfolding reparameterize_def Let_def c if_False add val ..
qed

text \<open>
  Claim C1 (amended). When \<open>age_disentanglement\<close> is on, \<open>old_experiment\<close> is off and the
  model version is not 2.3, for a mean of width L and a log-variance of width L - 1 the
  reparameterized vector has width L, its trailing scalar is the trailing scalar of the mean,
  and its leading part is mean plus sample times \<open>exp (0.5 * log-variance)\<close>.
\<close>

theorem reparameterize_attribute_isolation:
  assumes "age \<and> old = False \<and> version \<noteq> 23 / 10"
    and "shape2 B L mu" and "shape2 B (L - 1) logvar" and "0 < L"
  shows "\<exists>z. reparameterize noise mu logvar age old version = Inr z \<and> shape2 B L z \<and>
    (\<forall>b < B. last (z ! b) = last (mu ! b) \<and>
       butlast (z ! b) = map (\<lambda>j. mu ! b ! j + noise b j * exp (0.5 * logvar ! b ! j)) [0..<L - 1])"
  using assms(4) unfolding reparameterize_isolated_value[OF assms]
  by (auto simp: shape2_def)

theorem reparameterize_attribute_isolation_witness:
  "\<exists>z. reparameterize (\<lambda>_ _. 3) [[1, 2]] [[0]] True False 1 = Inr z \<and>
     last (z ! 0) = 2 \<and> butlast (z ! 0) = [4]"
proof -
  have f: "True \<and> False = False \<and> (1::real) \<noteq> 23 / 10" by simp
  have m: "shape2 1 2 [[1, 2 :: real]]" and l: "shape2 1 (2 - 1) [[0 :: real]]"
    by (simp_all add: shape2_def)
  from reparameterize_attribute_isolation[OF f m l, of "\<lambda>_ _. 3"]
  obtain z where z: "reparameterize (\<lambda>_ _. 3) [[1, 2]] [[0]] True False 1 = Inr z"
    and p: "\<forall>b < 1. last (z ! b) = last ([[1, 2 :: real]] ! b) \<and>
       butlast (z ! b) = map (\<lambda>j. [[1, 2]] ! b ! j + 3 * exp (0.5 * [[0]] ! b ! j)) [0..<2 - 1]"
    by auto
  from p have "last (z ! 0) = 2 \<and> butlast (z ! 0) = [4]" by simp
  with z show ?thesis by blast
qed

text \<open>
  With \<open>age_disentanglement\<close> on and \<open>old_experiment\<close> on, the noise reaches the
  trailing scalar: mean 0 becomes 1.
\<close>

theorem reparameterize_old_experiment_counterexample:
  "reparameterize (\<lambda>_ _. 1) [[0, 0]] [[0, 0]] True True 1 = Inr [[1, 1]]"
  by (simp add: reparameterize_def randn_like_def tensor_add_def broadcast_def enumerate_eq_zip)

subsection \<open>The forward pass\<close>

text \<open>
  Claim C10. For every selector combination outside the listed ones (the five branches of
  \<^verbatim>\<open>forward\<close>, the fourth covering versions 2 and 2.3), the forward pass evaluates nothing
  and fails with an unbound-local error at its return statement.
\<close>

theorem forward_unlisted_selector:
  "\<not> selector_listed (model_version m) (extra_layers m) (detach_features m) \<Longrightarrow>
   forward m training noise x = Inl UnboundLocalError"
proof -
  assume n: "\<not> selector_listed (model_version m) (extra_layers m) (detach_features m)"
  have c1: "\<not> (model_version m = 1 \<and> extra_layers m = False \<and> detach_features m = False)"
    and c2: "\<not> (model_version m = 2 \<and> extra_layers m = False \<and> detach_features m = False)"
    and c3: "\<not> (model_version m = 1 \<and> extra_layers m = True \<and> detach_features m = False)"
    and c4: "\<not> ((model_version m = 2 \<or> model_version m = 23 / 10) \<and> extra_layers m = True
              \<and> detach_features m = False)"
    and c5: "\<not> (model_version m = 2 \<and> extra_layers m = True \<and> detach_features m = True)"
    using n by (auto simp: selector_listed_def)
  show ?thesis
    unfolding forward_def by (simp only: c1 c2 c3 c4 c5 if_False)
qed

theorem forward_unlisted_selector_witness:
  "forward ((tiny_model True True)\<lparr>detach_features := True\<rparr>) True (\<lambda>_ _. 0) [[[1]]]
     = Inl UnboundLocalError \<and>
   forward ((tiny_model True True)\<lparr>model_version := 3\<rparr>) True (\<lambda>_ _. 0) [[[1]]]
     = Inl UnboundLocalError"
proof -
  have a: "\<not> selector_listed (model_version ((tiny_model True True)\<lparr>detach_features := True\<rparr>))
      (extra_layers ((tiny_model True True)\<lparr>detach_features := True\<rparr>))
      (detach_features ((tiny_model True True)\<lparr>detach_features := True\<rparr>))"
    by (simp add: selector_listed_def tiny_model_def)
  have b: "\<not> selector_listed (model_version ((tiny_model True True)\<lparr>model_version := 3\<rparr>))
      (extra_layers ((tiny_model True True)\<lparr>model_version := 3\<rparr>))
      (detach_features ((tiny_model True True)\<lparr>model_version := 3\<rparr>))"
    by (simp add: selector_listed_def tiny_model_def)
  show ?thesis
    using forward_unlisted_selector[OF a] forward_unlisted_selector[OF b] by simp
qed

subsection \<open>The absorption pass of the segmentation\<close>

text \<open>
  Supporting facts for the segmentation: after the first pass every feature vertex has a ring
  of its own colour only, so the absorption loop ends at the first vertex of every small
  bucket and appends nothing.
\<close>

lemma set_fromkeys [simp]: "set (fromkeys xs) = set xs"
  by (simp add: fromkeys_def)

lemma in_neighbours_left: "(i, v) \<in> set edges \<Longrightarrow> v \<in> set (neighbours edges i)"
  by (induction edges) (auto simp: neighbours_def)

lemma in_neighbours_right: "(u, i) \<in> set edges \<Longrightarrow> u \<in> set (neighbours edges i)"
  by (induction edges) (auto simp: neighbours_def)

lemma graph_ring_nonempty: "graph_ring edges i = Inr r \<Longrightarrow> r \<noteq> []"
proof -
  assume a: "graph_ring edges i = Inr r"
  then have r: "r = neighbours edges i" and ex: "\<exists>(u, v) \<in> set edges. u = i \<or> v = i"
    by (simp_all add: graph_ring_def split: if_splits)
  from ex obtain u v where "(u, v) \<in> set edges" "u = i \<or> v = i" by blast
  then have "set (neighbours edges i) \<noteq> {}"
    using in_neighbours_left[of i v edges] in_neighbours_right[of u i edges] by auto
  with r show ?thesis by auto
qed


lemma distinct_fromkeys [simp]: "distinct (fromkeys xs)"
  by (simp add: fromkeys_def)

lemma distinct_singleton_set: "distinct ys \<Longrightarrow> set ys = {k} \<Longrightarrow> ys = [k]"
proof (cases ys)
  case Nil
  assume "set ys = {k}"
  with Nil show ?thesis by simp
next
  case (Cons y zs)
  assume d: "distinct ys" and s: "set ys = {k}"
  from s Cons have y: "y = k" by auto
  have "zs = []"
  proof (cases zs)
    case Nil
    then show ?thesis .
  next
    case (Cons z zs')
    with s \<open>ys = y # zs\<close> have "z = k" by auto
    with d y \<open>ys = y # zs\<close> Cons show ?thesis by simp
  qed
  with y Cons show ?thesis by simp
qed

lemma most_common_uniform:
  assumes "xs \<noteq> []" "\<forall>x \<in> set xs. x = k"
  shows "most_common xs = Inr k"
proof -
  have "set xs = {k}" using assms by (cases xs) auto
  then have "fromkeys xs = [k]" by (intro distinct_singleton_set) simp_all
  then show ?thesis by (simp add: most_common_def)
qed

lemma ring_colors_in_range:
  "\<forall>ri \<in> set ring. ri < length colors \<Longrightarrow>
   ring_colors colors ring = Inr (map (\<lambda>ri. colors ! ri) ring)"
  unfolding ring_colors_def by (rule mapM_map_Inr) (simp add: py_nth_def)

lemma ring_colors_Inr:
  assumes "ring_colors colors ring = Inr rcs"
  shows "(\<forall>ri \<in> set ring. ri < length colors) \<and> rcs = map (\<lambda>ri. colors ! ri) ring"
proof -
  have inb: "ri < length colors" if "ri \<in> set ring" for ri
  proof -
    from mapM_Inr_D[OF assms[unfolded ring_colors_def] that]
    show ?thesis by (auto simp: py_nth_def split: if_splits)
  qed
  then show ?thesis using ring_colors_in_range[of ring colors] assms by simp
qed

lemma absorb_vertices_noop:
  assumes "\<forall>idx \<in> set idxs. feature_vertex colors rings key idx"
  shows "absorb_vertices colors rings key features idxs = Inr features"
proof (cases idxs)
  case Nil
  then show ?thesis by simp
next
  case (Cons idx rest)
  with assms have fv: "feature_vertex colors rings key idx" by simp
  then have r: "py_nth rings idx = Inr (rings ! idx)" by (simp add: feature_vertex_def py_nth_def)
  from fv have rc: "ring_colors colors (rings ! idx) = Inr (map (\<lambda>ri. colors ! ri) (rings ! idx))"
    by (intro ring_colors_in_range) (simp add: feature_vertex_def)
  from fv have "most_common (map (\<lambda>ri. colors ! ri) (rings ! idx)) = Inr key"
    by (intro most_common_uniform) (auto simp: feature_vertex_def)
  then show ?thesis by (simp add: Cons r rc bind_def)
qed

lemma dict_get_present:
  "distinct (map fst d) \<Longrightarrow> (k, b) \<in> set d \<Longrightarrow> dict_get d k = Inr b"
  by (simp add: dict_get_def)

lemma absorb_noop:
  assumes ok: "buckets_ok colors rings features"
    and keys: "set keys \<subseteq> fst ` set features"
  shows "absorb colors rings features acc keys
    = Inr (features, acc @ filter (\<lambda>k. \<exists>b. (k, b) \<in> set features \<and> length (feature b) < 3) keys)"
  using keys
proof (induction keys arbitrary: acc)
  case Nil
  then show ?case by simp
next
  case (Cons key keys)
  from Cons.prems obtain b where b: "(key, b) \<in> set features" by auto
  from ok have d: "distinct (map fst features)" by (simp add: buckets_ok_def)
  have g: "dict_get features key = Inr b" by (rule dict_get_present[OF d b])
  have uniq: "b' = b" if "(key, b') \<in> set features" for b'
    using d b that by (meson eq_key_imp_eq_value)
  have small: "(\<exists>b'. (key, b') \<in> set features \<and> length (feature b') < 3) \<longleftrightarrow> length (feature b) < 3"
    using b uniq by blast
  have fv: "\<forall>idx \<in> set (feature b). feature_vertex colors rings key idx"
    using ok b by (auto simp: buckets_ok_def)
  have IH: "absorb colors rings features acc' keys
    = Inr (features, acc' @ filter (\<lambda>k. \<exists>b. (k, b) \<in> set features \<and> length (feature b) < 3) keys)"
    for acc' using Cons.prems by (intro Cons.IH) simp
  show ?case
    by (simp add: g bind_def absorb_vertices_noop[OF fv] IH small del: ex_simps)
qed

lemma dict_set_keys: "k \<in> fst ` set d \<Longrightarrow> map fst (dict_set k v d) = map fst d"
proof (induction d)
  case Nil
  then show ?case by simp
next
  case (Cons p d)
  obtain k' v' where p: "p = (k', v')" by (cases p)
  show ?case
  proof (cases "k = k'")
    case True
    then show ?thesis by (simp add: p)
  next
    case False
    with Cons.prems p have "k \<in> fst ` set d" by auto
    from Cons.IH[OF this] False show ?thesis by (simp add: p)
  qed
qed

lemma set_dict_set: "set (dict_set k v d) \<subseteq> insert (k, v) (set d)"
  by (induction d) (auto split: if_splits)

lemma buckets_ok_dict_set:
  assumes ok: "buckets_ok colors rings fs"
    and k: "k \<in> fst ` set fs"
    and b: "\<forall>idx \<in> set (feature b). feature_vertex colors rings k idx"
  shows "buckets_ok colors rings (dict_set k b fs)"
proof -
  have d: "distinct (map fst (dict_set k b fs))"
    using ok k by (simp add: dict_set_keys buckets_ok_def)
  have "\<forall>idx \<in> set (feature b'). feature_vertex colors rings k' idx"
    if "(k', b') \<in> set (dict_set k b fs)" for k' b'
  proof -
    from that set_dict_set[of k b fs] have "(k', b') = (k, b) \<or> (k', b') \<in> set fs" by auto
    then show ?thesis
    proof
      assume "(k', b') = (k, b)"
      with b show ?thesis by simp
    next
      assume "(k', b') \<in> set fs"
      with ok show ?thesis by (auto simp: buckets_ok_def)
    qed
  qed
  with d show ?thesis unfolding buckets_ok_def by blast
qed

lemma buckets_ok_new_key:
  assumes ok: "buckets_ok colors rings fs" and new: "map_of fs k = None"
  shows "buckets_ok colors rings (fs @ [(k, \<lparr>feature = [], contour = []\<rparr>)])"
proof -
  from new have "k \<notin> fst ` set fs" by (simp add: map_of_eq_None_iff)
  with ok show ?thesis by (auto simp: buckets_ok_def)
qed

lemma is_contour_False:
  assumes "is_contour colors index ring = Inr False"
  shows "index < length colors \<and> (\<forall>ri \<in> set ring. ri < length colors \<and> colors ! ri = colors ! index)"
proof -
  from assms[unfolded is_contour_def bind_eq_Inr]
  obtain cc rcs where cc: "py_nth colors index = Inr cc"
    and rcs: "ring_colors colors ring = Inr rcs"
    and all: "\<not> (\<exists>r \<in> set rcs. r \<noteq> cc)" by auto
  from cc have i: "index < length colors" and cc': "cc = colors ! index"
    by (auto simp: py_nth_def split: if_splits)
  from ring_colors_Inr[OF rcs] have inb: "\<forall>ri \<in> set ring. ri < length colors"
    and m: "rcs = map (\<lambda>ri. colors ! ri) ring" by simp_all
  from all m cc' have "\<forall>ri \<in> set ring. colors ! ri = colors ! index" by auto
  with i inb show ?thesis by simp
qed

lemma classify_ok:
  assumes ok: "buckets_ok colors rings fs"
    and i: "index < length rings"
    and ne: "rings ! index \<noteq> []"
    and vc: "v_col = colors ! index"
    and res: "classify colors fs (index, v_col, rings ! index) = Inr fs'"
  shows "buckets_ok colors rings fs'"
proof -
  define fs1 where
    "fs1 = (if map_of fs v_col = None then fs @ [(v_col, \<lparr>feature = [], contour = []\<rparr>)] else fs)"
  have ok1: "buckets_ok colors rings fs1"
    using ok buckets_ok_new_key[of colors rings fs v_col] by (simp add: fs1_def)
  have in1: "v_col \<in> fst ` set fs1"
  proof (cases "map_of fs v_col = None")
    case True
    then show ?thesis by (simp add: fs1_def)
  next
    case False
    then have "v_col \<in> fst ` set fs" by (simp add: map_of_eq_None_iff)
    with False show ?thesis by (simp add: fs1_def)
  qed
  from res have "bind (is_contour colors index (rings ! index)) (\<lambda>c.
           bind (dict_get fs1 v_col) (\<lambda>b.
           if c then Inr (dict_set v_col (b\<lparr>contour := contour b @ [index]\<rparr>) fs1)
           else Inr (dict_set v_col (b\<lparr>feature := feature b @ [index]\<rparr>) fs1))) = Inr fs'"
    unfolding classify_def fs1_def Let_def prod.case .
  then obtain c b where c: "is_contour colors index (rings ! index) = Inr c"
    and b: "dict_get fs1 v_col = Inr b"
    and fs': "(if c then Inr (dict_set v_col (b\<lparr>contour := contour b @ [index]\<rparr>) fs1)
           else Inr (dict_set v_col (b\<lparr>feature := feature b @ [index]\<rparr>) fs1))
         = (Inr fs' :: error + _)"
    unfolding bind_eq_Inr by (elim exE conjE) (rule that)
  from b have bin: "(v_col, b) \<in> set fs1"
    by (auto simp: dict_get_def split: option.splits dest: map_of_SomeD)
  with ok1 have fb: "\<forall>idx \<in> set (feature b). feature_vertex colors rings v_col idx"
    by (auto simp: buckets_ok_def)
  show ?thesis
  proof (cases c)
    case True
    with fs' have "fs' = dict_set v_col (b\<lparr>contour := contour b @ [index]\<rparr>) fs1" by simp
    moreover have "buckets_ok colors rings (dict_set v_col (b\<lparr>contour := contour b @ [index]\<rparr>) fs1)"
      by (rule buckets_ok_dict_set[OF ok1 in1]) (use fb in simp)
    ultimately show ?thesis by simp
  next
    case False
    with c have "is_contour colors index (rings ! index) = Inr False" by simp
    from is_contour_False[OF this] vc i ne
    have fv: "feature_vertex colors rings v_col index" by (simp add: feature_vertex_def)
    from False fs' have "fs' = dict_set v_col (b\<lparr>feature := feature b @ [index]\<rparr>) fs1" by simp
    moreover have "buckets_ok colors rings (dict_set v_col (b\<lparr>feature := feature b @ [index]\<rparr>) fs1)"
      by (rule buckets_ok_dict_set[OF ok1 in1]) (use fb fv in simp)
    ultimately show ?thesis by simp
  qed
qed

lemma first_pass_ok:
  assumes "buckets_ok colors rings fs"
    and "\<forall>(index, v_col, ring) \<in> set es.
           index < length rings \<and> ring = rings ! index \<and> ring \<noteq> [] \<and> v_col = colors ! index"
    and "first_pass colors fs es = Inr fs'"
  shows "buckets_ok colors rings fs'"
  using assms
proof (induction es arbitrary: fs)
  case Nil
  then show ?case by simp
next
  case (Cons e es)
  obtain index v_col ring where e: "e = (index, v_col, ring)" by (cases e) auto
  from Cons.prems(2) e have props: "index < length rings" "ring = rings ! index" "ring \<noteq> []"
    "v_col = colors ! index" by auto
  from Cons.prems(3) obtain fs1 where c: "classify colors fs e = Inr fs1"
    and r: "first_pass colors fs1 es = Inr fs'"
    by (auto simp: bind_eq_Inr)
  have "buckets_ok colors rings fs1"
    using classify_ok[OF Cons.prems(1) props(1) _ props(4)] c e props by simp
  then show ?case using Cons.IH[of fs1] Cons.prems(2) r by simp
qed

lemma buckets_ok_empty: "buckets_ok colors rings []"
  by (simp add: buckets_ok_def)

lemma first_pass_entries:
  assumes rings: "mapM (graph_ring edges) [0..<length colors] = Inr rings"
  shows "\<forall>(index, v_col, ring) \<in> set (zip [0..<length colors] (zip colors rings)).
           index < length rings \<and> ring = rings ! index \<and> ring \<noteq> [] \<and> v_col = colors ! index"
proof -
  from rings have len: "length rings = length colors"
    and each: "\<forall>i < length colors. graph_ring edges i = Inr (rings ! i)"
    by (simp_all add: mapM_Inr_iff)
  have "index < length rings \<and> ring = rings ! index \<and> ring \<noteq> [] \<and> v_col = colors ! index"
    if "(index, v_col, ring) \<in> set (zip [0..<length colors] (zip colors rings))"
    for index v_col ring
  proof -
    from that obtain j where j: "j < length colors" "index = j"
      "(v_col, ring) = zip colors rings ! j"
      using len by (auto simp: in_set_conv_nth)
    then have "v_col = colors ! index" "ring = rings ! index" using len by simp_all
    moreover from each j have "graph_ring edges index = Inr (rings ! index)" by simp
    then have "rings ! index \<noteq> []" by (rule graph_ring_nonempty)
    ultimately show ?thesis using j len by simp
  qed
  then show ?thesis by blast
qed

lemma removed_keys_filter:
  assumes d: "distinct (map fst features)"
  shows "filter (\<lambda>(k, b). k \<notin> set (filter (\<lambda>k. \<exists>b. (k, b) \<in> set features \<and> length (feature b) < 3)
                                     (map fst features))) features
       = filter (\<lambda>(k, b). 3 \<le> length (feature b)) features"
proof (rule filter_cong[OF refl])
  fix p
  assume p: "p \<in> set features"
  define S where
    "S = set (filter (\<lambda>k. \<exists>b. (k, b) \<in> set features \<and> length (feature b) < 3) (map fst features))"
  obtain k b where kb: "p = (k, b)" by (cases p)
  have uniq: "b' = b" if "(k, b') \<in> set features" for b'
    using d p kb that by (meson eq_key_imp_eq_value)
  have "(k \<in> S) = (length (feature b) < 3)"
  proof
    assume "k \<in> S"
    then obtain b' where "(k, b') \<in> set features" "length (feature b') < 3"
      by (auto simp: S_def)
    with uniq show "length (feature b) < 3" by auto
  next
    assume "length (feature b) < 3"
    with p kb show "k \<in> S" unfolding S_def by force
  qed
  then have "(k \<notin> S) = (3 \<le> length (feature b))" by auto
  then show "(case p of (k, b) \<Rightarrow>
        k \<notin> set (filter (\<lambda>k. \<exists>b. (k, b) \<in> set features \<and> length (feature b) < 3) (map fst features)))
     = (case p of (k, b) \<Rightarrow> 3 \<le> length (feature b))"
    unfolding kb prod.case S_def .
qed

text \<open>
  The segmentation is the first pass followed by the removal of the buckets with fewer than
  three feature vertices: the index lists of the remaining buckets are those of the first
  pass, and no vertex of a removed bucket is appended to another bucket.
\<close>

lemma segment_absorbs_nothing:
  "segment colors edges =
     bind (mapM (graph_ring edges) [0..<length colors]) (\<lambda>one_rings_indices.
     bind (first_pass colors [] (zip [0..<length colors] (zip colors one_rings_indices))) (\<lambda>features.
     Inr (filter (\<lambda>(k, b). 3 \<le> length (feature b)) features)))"
proof (cases "mapM (graph_ring edges) [0..<length colors]")
  case (Inl e)
  then show ?thesis by (simp add: segment_def bind_def)
next
  case (Inr rings)
  show ?thesis
  proof (cases "first_pass colors [] (zip [0..<length colors] (zip colors rings))")
    case (Inl e)
    with Inr show ?thesis by (simp add: segment_def bind_def)
  next
    case fp: (Inr features)
    have ok: "buckets_ok colors rings features"
      by (rule first_pass_ok[OF buckets_ok_empty first_pass_entries[OF Inr] fp])
    then have d: "distinct (map fst features)" by (simp add: buckets_ok_def)
    have a: "absorb colors rings features [] (map fst features)
      = Inr (features, [] @ filter (\<lambda>k. \<exists>b. (k, b) \<in> set features \<and> length (feature b) < 3)
                                   (map fst features))"
      by (rule absorb_noop[OF ok]) simp
    show ?thesis
      by (simp only: segment_def Inr fp a bind_def sum.case prod.case append_Nil
          removed_keys_filter[OF d])
  qed
qed

subsection \<open>Region segmentation\<close>

text \<open>
  Claim C4, at a failing input. On the strip, the two vertices of the interpolated colour
  are contour vertices of a bucket without feature vertices. The bucket is removed and its
  vertices 6 and 7 are appended nowhere: neither the red nor the blue bucket lists them.
\<close>

theorem small_bucket_vertices_dropped:
  "extract_feature_and_contour_from_colour (Trimesh (strip_mesh pos))
     = Inr [(red, \<lparr>feature = [0, 1, 2, 3], contour = [4, 5]\<rparr>),
            (blue, \<lparr>feature = [10, 11, 12, 13], contour = [8, 9]\<rparr>)]"
proof -
  have "segment [red, red, red, red, red, red, mixed, mixed, blue, blue, blue, blue, blue, blue]
      strip_edges
     = Inr [(red, \<lparr>feature = [0, 1, 2, 3], contour = [4, 5]\<rparr>),
            (blue, \<lparr>feature = [10, 11, 12, 13], contour = [8, 9]\<rparr>)]"
    by code_simp
  then show ?thesis
    by (simp add: extract_feature_and_contour_from_colour_def strip_mesh_def)
qed

text \<open>
  Claim C9. Two runs on meshes with the same per-vertex colours and the same edges give the
  same result (the same buckets in the same order with the same index lists, or the same
  exception), whatever else differs between the meshes.
\<close>

theorem segmentation_deterministic:
  "vertex_colors m1 = vertex_colors m2 \<Longrightarrow> edges_unique m1 = edges_unique m2 \<Longrightarrow>
   extract_feature_and_contour_from_colour (Trimesh m1)
     = extract_feature_and_contour_from_colour (Trimesh m2) \<and>
   extract_feature_and_contour_from_colour (Data h m1)
     = extract_feature_and_contour_from_colour (Data h m2)"
  by (simp add: extract_feature_and_contour_from_colour_def)

theorem segmentation_deterministic_witness:
  "extract_feature_and_contour_from_colour (Trimesh (strip_mesh []))
     = extract_feature_and_contour_from_colour (Trimesh (strip_mesh [(1, 2, 3)])) \<and>
   extract_feature_and_contour_from_colour (Data True (strip_mesh []))
     = extract_feature_and_contour_from_colour (Data True (strip_mesh [(1, 2, 3)]))"
proof -
  have c: "vertex_colors (strip_mesh []) = vertex_colors (strip_mesh [(1, 2, 3)])"
    and e: "edges_unique (strip_mesh []) = edges_unique (strip_mesh [(1, 2, 3)])"
    by (simp_all add: strip_mesh_def)
  show ?thesis by (rule segmentation_deterministic[OF c e])
qed

subsection \<open>Shapes through the encoder\<close>

lemma mapM_all_Inr:
  "(\<And>x. x \<in> set xs \<Longrightarrow> \<exists>y. f x = Inr y \<and> P y) \<Longrightarrow>
   \<exists>ys. mapM f xs = Inr ys \<and> length ys = length xs \<and> (\<forall>y \<in> set ys. P y)"
proof (induction xs)
  case Nil
  then show ?case by simp
next
  case (Cons x xs)
  from Cons.prems[of x] obtain y where y: "f x = Inr y" "P y" by auto
  from Cons.IH Cons.prems obtain ys where
    ys: "mapM f xs = Inr ys" "length ys = length xs" "\<forall>y \<in> set ys. P y"
    by (metis list.set_intros(2))
  show ?case using y ys by simp
qed

lemma Linear_forward_init:
  "length x = a \<Longrightarrow> \<exists>y. Linear_forward (Linear_init p a b) x = Inr y \<and> length y = b"
  by (simp add: Linear_forward_def Linear_init_def)

lemma apply_linear_shape:
  assumes "shape2 B a x"
  shows "\<exists>y. apply_linear (Lin (Linear_init p a b)) x = Inr y \<and> shape2 B b y"
proof -
  have "\<exists>ys. mapM (Linear_forward (Linear_init p a b)) x = Inr ys \<and> length ys = length x \<and>
      (\<forall>y \<in> set ys. length y = b)"
    by (rule mapM_all_Inr) (use assms in \<open>auto simp: shape2_def intro: Linear_forward_init\<close>)
  then show ?thesis using assms by (auto simp: apply_linear_def shape2_def)
qed

lemma length_chunk:
  assumes "i < n" "length flat = n * k"
  shows "length (take k (drop (i * k) flat)) = k"
proof -
  have "Suc i * k \<le> n * k" using assms(1) by (intro mult_le_mono1) simp
  then show ?thesis using assms(2) by simp
qed

lemma view_rows_shape:
  assumes "0 < n" "length flat = n * k"
  shows "\<exists>rows. view_rows n flat = Inr rows \<and> shape2 n k rows"
proof -
  have d: "length flat div n = k" using assms by simp
  have "shape2 n k (map (\<lambda>i. take k (drop (i * k) flat)) [0..<n])"
    using assms(2) by (auto simp: shape2_def length_chunk simp del: length_take length_drop)
  then show ?thesis using assms by (simp add: view_rows_def d)
qed

lemma view_cols_shape:
  assumes "0 < k" "length flat = n * k"
  shows "\<exists>rows. view_cols k flat = Inr rows \<and> shape2 n k rows"
proof -
  have d: "length flat div k = n" using assms by simp
  have "shape2 n k (map (\<lambda>i. take k (drop (i * k) flat)) [0..<n])"
    using assms(2) by (auto simp: shape2_def length_chunk simp del: length_take length_drop)
  then show ?thesis using assms by (simp add: view_cols_def d)
qed

lemma length_concat_shape2: "shape2 n c m \<Longrightarrow> length (concat m) = n * c"
  by (induction m arbitrary: n) (auto simp: shape2_def)

lemma length_concat_shape3:
  "shape3 b n c x \<Longrightarrow> length (concat (concat x)) = b * (n * c)"
proof (induction x arbitrary: b)
  case Nil
  then show ?case by (simp add: shape3_def)
next
  case (Cons m x)
  then have "shape2 n c m" "shape3 (b - 1) n c x" "b = Suc (length x)"
    by (auto simp: shape3_def)
  then show ?case using Cons.IH[of "b - 1"] by (simp add: length_concat_shape2)
qed

lemma SpiralConv_instance_shape:
  assumes ne: "idx \<noteq> []"
    and rect: "\<forall>row \<in> set idx. length row = width idx \<and> (\<forall>v \<in> set row. v < V)"
    and inst: "shape2 V cin inst"
  shows "\<exists>out. SpiralConv_instance (SpiralConv_attrs p cin cout idx) inst = Inr out \<and>
    shape2 (length idx) cout out"
proof -
  let ?N = "length idx" and ?S = "width idx"
  let ?sel = "map (\<lambda>i. inst ! i) (concat idx)"
  have N: "0 < ?N" using ne by simp
  have shI: "shape2 ?N ?S idx" using rect by (simp add: shape2_def)
  have lV: "length inst = V" using inst by (simp add: shape2_def)
  have inb: "\<not> (\<exists>i \<in> set (concat idx). length inst \<le> i)"
    using rect lV by fastforce
  have sel: "index_select inst (concat idx) = Inr ?sel"
    using inb by (simp add: index_select_def)
  have "shape2 (?N * ?S) cin ?sel"
    using inst inb lV by (auto simp: shape2_def length_concat_shape2[OF shI] not_le)
  then have "length (concat ?sel) = ?N * (?S * cin)"
    by (simp add: length_concat_shape2 mult.assoc)
  from view_rows_shape[OF N this] obtain rows where
    rows: "view_rows ?N (concat ?sel) = Inr rows" "shape2 ?N (?S * cin) rows" by auto
  have "\<exists>ys. mapM (Linear_forward (Linear_init p (cin * ?S) cout)) rows = Inr ys \<and>
      length ys = length rows \<and> (\<forall>y \<in> set ys. length y = cout)"
    by (rule mapM_all_Inr)
      (use rows(2) in \<open>auto simp: shape2_def mult.commute intro: Linear_forward_init\<close>)
  then obtain out where out: "mapM (Linear_forward (Linear_init p (cin * ?S) cout)) rows = Inr out"
    "shape2 ?N cout out" using rows(2) by (auto simp: shape2_def)
  show ?thesis
    using sel rows(1) out by (simp add: SpiralConv_instance_def SpiralConv_attrs_def bind_def)
qed

lemma SpiralConv_forward_shape:
  assumes "idx \<noteq> []"
    and "\<forall>row \<in> set idx. length row = width idx \<and> (\<forall>v \<in> set row. v < V)"
    and x: "shape3 B V cin x" and B: "0 < B"
  shows "\<exists>out. SpiralConv_forward (SpiralConv_attrs p cin cout idx) x = Inr out \<and>
    shape3 B (length idx) cout out"
proof -
  have "\<exists>ys. mapM (SpiralConv_instance (SpiralConv_attrs p cin cout idx)) x = Inr ys \<and>
      length ys = length x \<and> (\<forall>y \<in> set ys. shape2 (length idx) cout y)"
    by (rule mapM_all_Inr)
      (use x in \<open>auto simp: shape3_def intro!: SpiralConv_instance_shape[OF assms(1,2)]\<close>)
  moreover have "x \<noteq> []" using x B by (auto simp: shape3_def)
  ultimately show ?thesis using x by (auto simp: SpiralConv_forward_def shape3_def)
qed

lemma Pool_shape:
  assumes ok: "\<forall>(r, c, w) \<in> set (entries t). r < size0 t \<and> c < V"
    and x: "shape3 B V C x" and V: "0 < V"
  shows "\<exists>out. Pool x t = Inr out \<and> shape3 B (size0 t) C out"
proof -
  have "\<exists>ys. mapM (Pool_instance t) x = Inr ys \<and> length ys = length x \<and>
      (\<forall>y \<in> set ys. shape2 (size0 t) C y)"
  proof (rule mapM_all_Inr)
    fix m assume "m \<in> set x"
    then have "shape2 V C m" using x by (simp add: shape3_def)
    from Pool_instance_sum[OF ok this V]
    show "\<exists>y. Pool_instance t m = Inr y \<and> shape2 (size0 t) C y" by blast
  qed
  then show ?thesis using x by (auto simp: Pool_def shape3_def)
qed

lemma shape3_map_elu: "shape3 B V C x \<Longrightarrow> shape3 B V C (map (map (map elu)) x)"
  by (auto simp: shape3_def shape2_def)

lemma SpiralEnblock_forward_shape:
  assumes ne: "idx \<noteq> []"
    and rect: "\<forall>row \<in> set idx. length row = width idx \<and> (\<forall>v \<in> set row. v < V)"
    and ok: "\<forall>(r, c, w) \<in> set (entries d). r < size0 d \<and> c < length idx"
    and x: "shape3 B V cin x" and B: "0 < B"
  shows "\<exists>out. SpiralEnblock_forward (SpiralConv_attrs p cin cout idx) x d = Inr out \<and>
    shape3 B (size0 d) cout out"
proof -
  from SpiralConv_forward_shape[OF ne rect x B] obtain y where
    y: "SpiralConv_forward (SpiralConv_attrs p cin cout idx) x = Inr y"
    "shape3 B (length idx) cout y" by blast
  have N: "0 < length idx" using ne by simp
  from Pool_shape[OF ok shape3_map_elu[OF y(2)] N] y(1)
  show ?thesis by (simp add: SpiralEnblock_forward_def bind_def)
qed

lemma encode_blocks_shape:
  assumes lev: "\<And>j. i \<le> j \<Longrightarrow> j < n \<Longrightarrow>
      idx j \<noteq> [] \<and> (\<forall>row \<in> set (idx j). length row = width (idx j) \<and> (\<forall>v \<in> set row. v < V j)) \<and>
      j < length downs \<and>
      (\<forall>(r, c, w) \<in> set (entries (downs ! j)). r < size0 (downs ! j) \<and> c < length (idx j)) \<and>
      size0 (downs ! j) = V (Suc j)"
    and x: "shape3 B (V i) (ch i) x" and le: "i \<le> n" and B: "0 < B"
  shows "\<exists>out. encode_blocks downs i
      (map (\<lambda>j. Enblock (SpiralConv_attrs (p j) (ch j) (ch (Suc j)) (idx j))) [i..<n]) x = Inr out \<and>
    shape3 B (V n) (ch n) out"
  using le lev x B
proof (induction arbitrary: x rule: inc_induct)
  case base
  then show ?case by simp
next
  case (step k)
  from step.prems(1)[OF order.refl step.hyps(2)]
  have ne: "idx k \<noteq> []"
    and rect: "\<forall>row \<in> set (idx k). length row = width (idx k) \<and> (\<forall>v \<in> set row. v < V k)"
    and kd: "k < length downs"
    and ok: "\<forall>(r, c, w) \<in> set (entries (downs ! k)). r < size0 (downs ! k) \<and> c < length (idx k)"
    and sz: "size0 (downs ! k) = V (Suc k)"
    by auto
  from SpiralEnblock_forward_shape[OF ne rect ok step.prems(2,3), of "p k" "ch (Suc k)"]
  obtain y where y: "SpiralEnblock_forward (SpiralConv_attrs (p k) (ch k) (ch (Suc k)) (idx k)) x (downs ! k) = Inr y"
    "shape3 B (V (Suc k)) (ch (Suc k)) y"
    using sz by auto
  have "\<exists>out. encode_blocks downs (Suc k)
      (map (\<lambda>j. Enblock (SpiralConv_attrs (p j) (ch j) (ch (Suc j)) (idx j))) [Suc k..<n]) y = Inr out \<and>
    shape3 B (V n) (ch n) out"
  proof (rule step.IH)
    fix j assume "Suc k \<le> j" "j < n"
    from step.prems(1)[OF Suc_leD[OF this(1)] this(2)]
    show "idx j \<noteq> [] \<and> (\<forall>row \<in> set (idx j). length row = width (idx j) \<and> (\<forall>v \<in> set row. v < V j)) \<and>
      j < length downs \<and>
      (\<forall>(r, c, w) \<in> set (entries (downs ! j)). r < size0 (downs ! j) \<and> c < length (idx j)) \<and>
      size0 (downs ! j) = V (Suc j)" .
  next
    show "shape3 B (V (Suc k)) (ch (Suc k)) y" by (rule y(2))
  next
    show "0 < B" by (rule step.prems(3))
  qed
  then show ?case
    using step.hyps(2) kd y(1) by (simp add: upt_conv_Cons py_nth_def bind_def)
qed

lemma py_neg_last: "xs \<noteq> [] \<Longrightarrow> py_neg xs 1 = Inr (last xs)"
  by (cases xs rule: rev_cases) (simp_all add: py_neg_def)

lemma encoder_block_Inr:
  assumes "encoder_block pe cfg j = Inr blk"
  shows "blk = Enblock (SpiralConv_attrs (pe j)
                 (if j = 0 then cfg_in_channels cfg else cfg_out_channels cfg ! (j - 1))
                 (cfg_out_channels cfg ! j) (cfg_spiral_indices cfg ! j))"
  using assms
  by (auto simp: encoder_block_def bind_eq_Inr py_nth_def SpiralConv_init_def split: if_splits)

lemma Model_init_encoder:
  assumes v: "valid_hierarchy cfg" and init: "Model_init pe pd cfg = Inr m"
  shows "en_layers m =
      map (\<lambda>j. Enblock (SpiralConv_attrs (pe j)
                 (if j = 0 then cfg_in_channels cfg else cfg_out_channels cfg ! (j - 1))
                 (cfg_out_channels cfg ! j) (cfg_spiral_indices cfg ! j)))
          [0..<length (cfg_out_channels cfg)]
      @ [Lin (Linear_init (pe (length (cfg_out_channels cfg)))
               (size0 (last (cfg_down_transform cfg)) * last (cfg_out_channels cfg))
               (first_dense_width cfg))]
      @ (if cfg_is_vae cfg
         then [Lin (Linear_init (pe (length (cfg_out_channels cfg) + 1))
                 (size0 (last (cfg_down_transform cfg)) * last (cfg_out_channels cfg))
                 (cfg_latent_size cfg))]
         else []) \<and>
    down_transform m = cfg_down_transform cfg \<and> is_vae m = cfg_is_vae cfg"
proof -
  let ?n = "length (cfg_out_channels cfg)"
  let ?blk = "\<lambda>j. Enblock (SpiralConv_attrs (pe j)
                 (if j = 0 then cfg_in_channels cfg else cfg_out_channels cfg ! (j - 1))
                 (cfg_out_channels cfg ! j) (cfg_spiral_indices cfg ! j))"
  from v have n: "0 < ?n" and ld: "length (cfg_down_transform cfg) = ?n"
    by (simp_all add: valid_hierarchy_def Let_def)
  have pd1: "py_neg (cfg_down_transform cfg) 1 = Inr (last (cfg_down_transform cfg))"
    using n ld by (intro py_neg_last) auto
  have po1: "py_neg (cfg_out_channels cfg) 1 = Inr (last (cfg_out_channels cfg))"
    using n by (intro py_neg_last) auto
  have pd1': "py_neg (cfg_down_transform cfg) (Suc 0) = Inr (last (cfg_down_transform cfg))"
    using pd1 by simp
  from init obtain bs where e: "mapM (encoder_block pe cfg) [0..<?n] = Inr bs"
    by (cases "mapM (encoder_block pe cfg) [0..<?n]")
      (simp_all add: Model_init_def Let_def pd1' bind_def)
  have bs: "bs = map ?blk [0..<?n]"
  proof (rule nth_equalityI)
    show "length bs = length (map ?blk [0..<?n])"
      using e by (simp add: mapM_Inr_iff)
  next
    fix j assume "j < length bs"
    then have j: "j < ?n" using e by (simp add: mapM_Inr_iff)
    then have "encoder_block pe cfg j = Inr (bs ! j)"
      using e by (simp add: mapM_Inr_iff)
    from encoder_block_Inr[OF this] j show "bs ! j = map ?blk [0..<?n] ! j" by simp
  qed
  have "bind (Inr a) f = f a" for a :: 'a and f :: "'a \<Rightarrow> error + Model"
    by (simp add: bind_def)
  note b1 = this
  from init have "en_layers m = bs
        @ [Lin (Linear_init (pe ?n)
             (size0 (last (cfg_down_transform cfg)) * last (cfg_out_channels cfg))
             (first_dense_width cfg))]
        @ (if cfg_is_vae cfg
           then [Lin (Linear_init (pe (?n + 1))
                   (size0 (last (cfg_down_transform cfg)) * last (cfg_out_channels cfg))
                   (cfg_latent_size cfg))]
           else []) \<and>
      down_transform m = cfg_down_transform cfg \<and> is_vae m = cfg_is_vae cfg"
    unfolding Model_init_def Let_def pd1 e po1 b1
    by (auto simp: bind_eq_Inr first_dense_width_def split: if_splits)
  then show ?thesis unfolding bs .
qed

lemma encode_total:
  assumes v: "valid_hierarchy cfg"
    and init: "Model_init pe pd cfg = Inr m"
    and x: "shape3 B (length (cfg_spiral_indices cfg ! 0)) (cfg_in_channels cfg) x"
    and B: "0 < B"
  shows "(cfg_is_vae cfg \<longrightarrow>
      (\<exists>mu logvar. encode m x = Inr (mu, Some logvar) \<and> shape2 B (cfg_latent_size cfg) mu \<and>
         shape2 B (first_dense_width cfg) logvar)) \<and>
    (\<not> cfg_is_vae cfg \<longrightarrow>
      (\<exists>mu. encode m x = Inr (mu, None) \<and> shape2 B (first_dense_width cfg) mu))"
proof -
  let ?oc = "cfg_out_channels cfg" and ?si = "cfg_spiral_indices cfg"
  let ?downs = "cfg_down_transform cfg"
  let ?n = "length ?oc"
  let ?nv = "size0 (last ?downs)"
  define ch where "ch j = (if j = 0 then cfg_in_channels cfg else ?oc ! (j - 1))" for j
  define V where "V j = (if j = 0 then length (?si ! 0) else size0 (?downs ! (j - 1)))" for j
  define blocks where
    "blocks = map (\<lambda>j. Enblock (SpiralConv_attrs (pe j) (ch j) (ch (Suc j)) (?si ! j))) [0..<?n]"
  define l1 where "l1 = Lin (Linear_init (pe ?n) (?nv * last ?oc) (first_dense_width cfg))"
  define l2 where "l2 = Lin (Linear_init (pe (?n + 1)) (?nv * last ?oc) (cfg_latent_size cfg))"
  from v have n: "0 < ?n" and lsi: "length ?si = ?n" and ld: "length ?downs = ?n"
    and nv: "0 < ?nv" and ocl: "0 < last ?oc"
    and lev: "\<And>i. i < ?n \<Longrightarrow> ?si ! i \<noteq> [] \<and>
            (\<forall>row \<in> set (?si ! i). length row = width (?si ! i) \<and> (\<forall>v \<in> set row. v < length (?si ! i))) \<and>
            (\<forall>(r, c, w) \<in> set (entries (?downs ! i)). r < size0 (?downs ! i) \<and> c < length (?si ! i)) \<and>
            (i + 1 < ?n \<longrightarrow> size0 (?downs ! i) = length (?si ! (i + 1)))"
    by (simp_all add: valid_hierarchy_def Let_def)
  have Vj: "V j = length (?si ! j)" if "j < ?n" for j
  proof (cases j)
    case 0
    then show ?thesis by (simp add: V_def)
  next
    case (Suc i)
    with that lev[of i] show ?thesis by (simp add: V_def)
  qed
  have dne: "?downs \<noteq> []" and one: "?oc \<noteq> []" using n ld by auto
  have "last ?downs = ?downs ! (length ?downs - 1)" by (rule last_conv_nth[OF dne])
  then have Vn: "V ?n = ?nv" using n ld by (simp add: V_def)
  have "last ?oc = ?oc ! (?n - 1)" by (rule last_conv_nth[OF one])
  then have chn: "ch ?n = last ?oc" using n by (simp add: ch_def)
  from Model_init_encoder[OF v init]
  have en: "en_layers m = blocks @ [l1] @ (if cfg_is_vae cfg then [l2] else [])"
    and dm: "down_transform m = ?downs" and vae: "is_vae m = cfg_is_vae cfg"
    by (auto simp: blocks_def l1_def l2_def ch_def)
  have x0: "shape3 B (V 0) (ch 0) x" using x by (simp add: V_def ch_def)
  have levV: "?si ! j \<noteq> [] \<and>
      (\<forall>row \<in> set (?si ! j). length row = width (?si ! j) \<and> (\<forall>v \<in> set row. v < V j)) \<and>
      j < length ?downs \<and>
      (\<forall>(r, c, w) \<in> set (entries (?downs ! j)). r < size0 (?downs ! j) \<and> c < length (?si ! j)) \<and>
      size0 (?downs ! j) = V (Suc j)" if "0 \<le> j" and j: "j < ?n" for j
  proof -
    have VS: "V (Suc j) = size0 (?downs ! j)" by (simp add: V_def)
    show ?thesis using lev[OF j] j ld unfolding VS Vj[OF j] by simp
  qed
  have "\<exists>out. encode_blocks ?downs 0 blocks x = Inr out \<and> shape3 B (V ?n) (ch ?n) out"
    unfolding blocks_def
    by (rule encode_blocks_shape[where i = 0 and n = ?n and idx = "\<lambda>j. ?si ! j" and V = V
          and ch = ch and downs = ?downs and B = B and x = x and p = pe, OF levV x0 _ B])
      simp_all
  then obtain y where y: "encode_blocks ?downs 0 blocks x = Inr y"
    and shy: "shape3 B ?nv (last ?oc) y"
    by (auto simp: Vn chn)
  have k: "0 < ?nv * last ?oc" using nv ocl by simp
  from view_cols_shape[OF k length_concat_shape3[OF shy]]
  obtain rows where rows: "view_cols (?nv * last ?oc) (concat (concat y)) = Inr rows"
    and shr: "shape2 B (?nv * last ?oc) rows" by blast
  from apply_linear_shape[OF shr, of "pe ?n" "first_dense_width cfg"]
  obtain a where a: "apply_linear l1 rows = Inr a" "shape2 B (first_dense_width cfg) a"
    by (auto simp: l1_def)
  from apply_linear_shape[OF shr, of "pe (?n + 1)" "cfg_latent_size cfg"]
  obtain b where b: "apply_linear l2 rows = Inr b" "shape2 B (cfg_latent_size cfg) b"
    by (auto simp: l2_def)
  have lb: "length blocks = ?n" by (simp add: blocks_def)
  have w1: "linear_in_width l1 = Inr (?nv * last ?oc)"
    and w2: "linear_in_width l2 = Inr (?nv * last ?oc)"
    by (simp_all add: l1_def l2_def linear_in_width_def Linear_init_def)
  show ?thesis
  proof (intro conjI impI)
    assume c: "cfg_is_vae cfg"
    have e2: "en_layers m = blocks @ [l1, l2]" using en c by simp
    have t: "take (length (en_layers m) - 2) (en_layers m) = blocks"
      by (simp add: e2 lb)
    have p1: "py_neg (en_layers m) (Suc 0) = Inr l2" and p2: "py_neg (en_layers m) 2 = Inr l1"
      by (simp_all add: e2 py_neg_def lb nth_append)
    have "encode m x = Inr (b, Some a)"
      unfolding encode_def Let_def vae dm using c
      by (simp add: t p1 p2 y w2 rows a b bind_def)
    then show "\<exists>mu logvar. encode m x = Inr (mu, Some logvar) \<and>
        shape2 B (cfg_latent_size cfg) mu \<and> shape2 B (first_dense_width cfg) logvar"
      using a(2) b(2) by blast
  next
    assume c: "\<not> cfg_is_vae cfg"
    have e1: "en_layers m = blocks @ [l1]" using en c by simp
    have t: "take (length (en_layers m) - Suc 0) (en_layers m) = blocks"
      by (simp add: e1 lb)
    have p1: "py_neg (en_layers m) (Suc 0) = Inr l1"
      by (simp add: e1 py_neg_def lb nth_append)
    have "encode m x = Inr (map (map sigmoid) a, None)"
      unfolding encode_def Let_def vae dm using c
      by (simp add: t p1 y w1 rows a bind_def)
    moreover have "shape2 B (first_dense_width cfg) (map (map sigmoid) a)"
      using a(2) by (auto simp: shape2_def)
    ultimately show "\<exists>mu. encode m x = Inr (mu, None) \<and> shape2 B (first_dense_width cfg) mu"
      by blast
  qed
qed

text \<open>
  The constructor returns only for a latent size of at least 2 (the dense layers of the
  feature perceptron have \<open>latent_size - 1\<close> inputs and outputs), and encoding an empty
  batch raises.
\<close>

lemma Model_init_latent_size:
  assumes "Model_init pe pd cfg = Inr m"
  shows "2 \<le> cfg_latent_size cfg"
proof -
  from assms have "cfg_latent_size cfg \<noteq> 0"
    and "\<exists>u. xavier_uniform (cfg_latent_size cfg - 1) (cfg_latent_size cfg - 1) = Inr u"
    by (auto simp: Model_init_def Let_def bind_eq_Inr split: if_splits)
  then show ?thesis by (auto simp: xavier_uniform_def split: if_splits)
qed

lemma SpiralConv_forward_empty_batch: "SpiralConv_forward c [] = Inl RuntimeError"
  by (simp add: SpiralConv_forward_def)

lemma encode_empty_batch:
  assumes v: "valid_hierarchy cfg" and init: "Model_init pe pd cfg = Inr m"
  shows "encode m [] = Inl RuntimeError"
proof -
  let ?n = "length (cfg_out_channels cfg)"
  from v have n: "0 < ?n" and ld: "length (cfg_down_transform cfg) = ?n"
    by (simp_all add: valid_hierarchy_def Let_def)
  have up: "[0..<?n] = 0 # [Suc 0..<?n]" using n by (rule upt_conv_Cons)
  define k :: nat where "k = (if cfg_is_vae cfg then 2 else 1)"
  from Model_init_encoder[OF v init, unfolded up]
  obtain c rest where en: "en_layers m = Enblock c # rest"
    and len: "length rest = ?n - 1 + k"
    and dm: "down_transform m = cfg_down_transform cfg" and vae: "is_vae m = cfg_is_vae cfg"
    by (auto simp: k_def)
  have t: "take (length (en_layers m) - k) (en_layers m) = Enblock c # take (?n - 1) rest"
    using n by (cases "length (cfg_out_channels cfg)") (simp_all add: en len)
  have d0: "py_nth (cfg_down_transform cfg) 0 = Inr (cfg_down_transform cfg ! 0)"
    using n ld by (simp add: py_nth_def)
  have "encode_blocks (cfg_down_transform cfg) 0 (Enblock c # take (?n - 1) rest) []
      = Inl RuntimeError"
    by (simp add: d0 bind_def SpiralEnblock_forward_def SpiralConv_forward_def)
  then show ?thesis
    unfolding encode_def Let_def vae dm k_def[symmetric] t by (simp add: bind_def)
qed

subsection \<open>The smallest pipeline, evaluated\<close>

lemma upt_0_2: "[0..<2] = [0, Suc 0]"
  by code_simp

lemmas tiny_simps = encode_def decode_def tiny_model_def py_neg_def py_nth_def bind_def unit_op_def
  SpiralEnblock_forward_def SpiralDeblock_forward_def SpiralConv_forward_def
  SpiralConv_instance_def view3_def SpiralConv_attrs_def Linear_init_def Linear_forward_def
  index_select_def view_rows_def view_cols_def width_def dot_def ones_def elu_def Pool_def
  Pool_instance_def scatter_add_def vadd_def apply_linear_def linear_in_width_def upt_0_2

lemma tiny_init:
  "Model_init (\<lambda>_. ones) (\<lambda>_. ones) (tiny_cfg vae dis) = Inr (tiny_model vae dis)"
  by (simp add: Model_init_def tiny_cfg_def tiny_model_def py_neg_def py_nth_def bind_def
      encoder_block_def decoder_block_def unit_op_def SpiralConv_init_def xavier_uniform_def
      Dropout_init_def width_def)

lemma tiny_valid: "valid_hierarchy (tiny_cfg vae dis)"
  by (simp add: valid_hierarchy_def tiny_cfg_def unit_op_def width_def)

lemma tiny_decode_variational: "decode (tiny_model True True) [[1, 1]] = Inr [[[2]]]"
  by (simp add: tiny_simps)

subsection \<open>Encoding and decoding\<close>

text \<open>
  Claim C2 (amended). For a variational model built on a well-formed hierarchy and an input of
  shape (B, V, C) with a batch that is not empty, \<^verbatim>\<open>encode\<close> returns a mean of width
  \<open>latent_size\<close> and a log-variance whose width is \<open>latent_size - 1\<close> when
  \<open>age_disentanglement\<close> is on, \<open>old_experiment\<close> is off and the version is not 2.3,
  and \<open>latent_size\<close> otherwise.
\<close>

theorem encode_mean_and_logvar_widths:
  assumes "valid_hierarchy cfg" and "cfg_is_vae cfg" and "Model_init pe pd cfg = Inr m"
    and "shape3 B (length (cfg_spiral_indices cfg ! 0)) (cfg_in_channels cfg) x" and "0 < B"
  shows "\<exists>mu logvar. encode m x = Inr (mu, Some logvar) \<and>
    shape2 B (cfg_latent_size cfg) mu \<and>
    shape2 B (if cfg_age_disentanglement cfg \<and> \<not> cfg_old_experiment cfg
                  \<and> cfg_model_version cfg \<noteq> 23 / 10
              then cfg_latent_size cfg - 1 else cfg_latent_size cfg) logvar"
  using encode_total[OF assms(1,3,4,5)] assms(2) by (simp add: first_dense_width_def)

theorem encode_mean_and_logvar_widths_witness:
  "\<exists>mu logvar. encode (tiny_model True True) [[[1]]] = Inr (mu, Some logvar) \<and>
     shape2 1 2 mu \<and> shape2 1 1 logvar"
proof -
  have v: "cfg_is_vae (tiny_cfg True True)" by (simp add: tiny_cfg_def)
  have x: "shape3 1 (length (cfg_spiral_indices (tiny_cfg True True) ! 0))
      (cfg_in_channels (tiny_cfg True True)) [[[1 :: real]]]"
    by (simp add: tiny_cfg_def shape3_def shape2_def)
  have B: "(0::nat) < 1" by simp
  from encode_mean_and_logvar_widths[OF tiny_valid v tiny_init x B]
  show ?thesis by (simp add: tiny_cfg_def)
qed

text \<open>
  A variational model with disentanglement on and latent size 2: the mean has two entries,
  the log-variance one.
\<close>

theorem encode_logvar_narrower_counterexample:
  "Model_init (\<lambda>_. ones) (\<lambda>_. ones) (tiny_cfg True True) = Inr (tiny_model True True) \<and>
   encode (tiny_model True True) [[[1]]] = Inr ([[1, 1]], Some [[1]])"
  by (simp add: tiny_init) (simp add: tiny_simps)

text \<open>
  Claim C3, at a failing input. A plain (not variational) model with disentanglement on and
  latent size 2: the layer that gives the mean has one output, the decoder's dense layer
  takes two inputs, and decoding the mean raises.
\<close>

theorem decode_rejects_encoded_mean:
  "Model_init (\<lambda>_. ones) (\<lambda>_. ones) (tiny_cfg False True) = Inr (tiny_model False True) \<and>
   encode (tiny_model False True) [[[1]]] = Inr ([[sigmoid 1]], None) \<and>
   decode (tiny_model False True) [[sigmoid 1]] = Inl RuntimeError"
  by (simp add: tiny_init) (simp add: tiny_simps)

end
